theory Spec2Isabelle
  imports Complex_Main
begin

section \<open>Data model\<close>

text \<open>
  The program is \<^verbatim>\<open>to_Mondrian_style.py\<close>. A \<^verbatim>\<open>Box\<close> is the named tuple
  \<^verbatim>\<open>Box(Top, Bottom, Left, Right)\<close> of Python integers; \<^verbatim>\<open>box._replace(Right=c)\<close> is the record
  update. The initial box of \<^verbatim>\<open>boxize\<close> has \<^verbatim>\<open>Left=0, Right=width-1, Top=height-1, Bottom=0\<close>, so
  \<^verbatim>\<open>Top\<close> is the larger y coordinate.

  A Python float is a real number that is an IEEE double. The arithmetic of the recolorer
  (\<^verbatim>\<open>white * count\<close>, \<^verbatim>\<open>value / grain\<close>, \<^verbatim>\<open>grain * round(...)\<close>) is rounded to the nearest double,
  as the interpreter does. The channel means and the colour distance, which only rank the
  candidate cuts and feed the recolorer, are computed without rounding; in every run that is
  evaluated below the image has one colour, so the means are integers, which no rounding
  changes.
\<close>

datatype py_error = ZeroDivisionError | IndexError | ValueError | OverflowError

record Box =
  Top :: int
  Bottom :: int
  Left :: int
  Right :: int

type_synonym color = "int \<times> int \<times> int"
type_synonym fcolor = "real \<times> real \<times> real"

text \<open>
  The pixel buffer is a Pillow image: its size and one colour per coordinate. The accessors
  \<^verbatim>\<open>getpixel\<close> and \<^verbatim>\<open>putpixel\<close> belong to Pillow; they are modelled with Pillow's contract: a
  negative coordinate counts from the far edge once, and a coordinate that is still outside
  the image raises \<^verbatim>\<open>IndexError\<close>.
\<close>

record image =
  width :: int
  height :: int
  pix :: "int \<times> int \<Rightarrow> color"

definition wrap_xy :: "image \<Rightarrow> int \<times> int \<Rightarrow> int \<times> int" where
  "wrap_xy img xy =
     ((if fst xy < 0 then width img + fst xy else fst xy),
      (if snd xy < 0 then height img + snd xy else snd xy))"

definition inside :: "image \<Rightarrow> int \<times> int \<Rightarrow> bool" where
  "inside img xy \<longleftrightarrow> 0 \<le> fst xy \<and> fst xy < width img \<and> 0 \<le> snd xy \<and> snd xy < height img"

definition getpixel :: "image \<Rightarrow> int \<times> int \<Rightarrow> py_error + color" where
  "getpixel img xy =
     (if inside img (wrap_xy img xy) then Inr (pix img (wrap_xy img xy)) else Inl IndexError)"

definition putpixel :: "image \<Rightarrow> int \<times> int \<Rightarrow> color \<Rightarrow> py_error + image" where
  "putpixel img xy c =
     (if inside img (wrap_xy img xy)
      then Inr (img\<lparr>pix := (pix img)(wrap_xy img xy := c)\<rparr>)
      else Inl IndexError)"

text \<open>
  The random source is the stream of raw values it has still to produce. \<^verbatim>\<open>rng.randint(a, b)\<close>
  returns an integer of \<^verbatim>\<open>[a, b]\<close>, both ends included, advances the stream, and raises
  \<^verbatim>\<open>ValueError\<close> on an empty range. Every value of the range is the result for some stream.
\<close>

type_synonym rng = "nat \<Rightarrow> nat"

definition randint :: "rng \<Rightarrow> int \<Rightarrow> int \<Rightarrow> py_error + (int \<times> rng)" where
  "randint r a b =
     (if b < a then Inl ValueError
      else Inr (a + int (r 0 mod nat (b - a + 1)), \<lambda>n. r (Suc n)))"

section \<open>PixelSampler: \<^verbatim>\<open>sampler\<close>, \<^verbatim>\<open>average\<close>, \<^verbatim>\<open>distance\<close>\<close>

definition maxSample :: int where
  "maxSample = 100"

definition sampler :: "Box \<Rightarrow> int" where
  "sampler box =
     (let width = \<bar>Left box - Right box + 1\<bar>;
          height = \<bar>Top box - Bottom box + 1\<bar>
      in min (width * height) maxSample)"

text \<open>The loop \<^verbatim>\<open>for i in range(sampleSize)\<close> of \<^verbatim>\<open>average\<close>: two draws and one read per round.\<close>

fun draw_samples ::
  "image \<Rightarrow> rng \<Rightarrow> int \<Rightarrow> int \<Rightarrow> int \<Rightarrow> int \<Rightarrow> nat \<Rightarrow> py_error + (color list \<times> rng)" where
  "draw_samples img r minx maxx miny maxy 0 = Inr ([], r)"
| "draw_samples img r minx maxx miny maxy (Suc k) =
     (case randint r minx maxx of Inl e \<Rightarrow> Inl e | Inr (x, r1) \<Rightarrow>
      (case randint r1 miny maxy of Inl e \<Rightarrow> Inl e | Inr (y, r2) \<Rightarrow>
       (case getpixel img (x, y) of Inl e \<Rightarrow> Inl e | Inr p \<Rightarrow>
        (case draw_samples img r2 minx maxx miny maxy k of Inl e \<Rightarrow> Inl e
         | Inr (ps, r3) \<Rightarrow> Inr (p # ps, r3)))))"

definition channel_mean :: "(color \<Rightarrow> int) \<Rightarrow> color list \<Rightarrow> real" where
  "channel_mean ch sample = real_of_int (sum_list (map ch sample)) / real (length sample)"

definition average :: "image \<Rightarrow> rng \<Rightarrow> Box \<Rightarrow> py_error + (fcolor \<times> rng)" where
  "average img r box =
     (let sampleSize = sampler box;
          minx = min (Left box) (Right box);
          maxx = max (Left box) (Right box);
          miny = min (Top box) (Bottom box);
          maxy = max (Top box) (Bottom box)
      in case draw_samples img r minx maxx miny maxy (nat sampleSize) of
           Inl e \<Rightarrow> Inl e
         | Inr (sample, r') \<Rightarrow>
             if length sample = 0 then Inl ZeroDivisionError
             else Inr ((channel_mean fst sample,
                        channel_mean (\<lambda>p. fst (snd p)) sample,
                        channel_mean (\<lambda>p. snd (snd p)) sample), r'))"

definition distance :: "fcolor \<Rightarrow> fcolor \<Rightarrow> real" where
  "distance color1 color2 =
     (case color1 of (r1, g1, b1) \<Rightarrow> case color2 of (r2, g2, b2) \<Rightarrow>
        (r1 - r2)\<^sup>2 + (g1 - g2)\<^sup>2 + (b1 - b2)\<^sup>2)"

section \<open>RegionSplitter: \<^verbatim>\<open>split\<close>\<close>

text \<open>The two loops \<^verbatim>\<open>for i in range(cuts)\<close>: one draw per candidate cut \<^verbatim>\<open>c\<close>.\<close>

fun vertical_cuts :: "rng \<Rightarrow> int \<Rightarrow> int \<Rightarrow> Box \<Rightarrow> nat \<Rightarrow> py_error + ((Box \<times> Box) list \<times> rng)" where
  "vertical_cuts r lo hi box 0 = Inr ([], r)"
| "vertical_cuts r lo hi box (Suc k) =
     (case randint r lo hi of Inl e \<Rightarrow> Inl e | Inr (c, r1) \<Rightarrow>
      (case vertical_cuts r1 lo hi box k of Inl e \<Rightarrow> Inl e
       | Inr (rest, r2) \<Rightarrow> Inr ((box\<lparr>Right := c\<rparr>, box\<lparr>Left := c + 1\<rparr>) # rest, r2)))"

fun horizontal_cuts :: "rng \<Rightarrow> int \<Rightarrow> int \<Rightarrow> Box \<Rightarrow> nat \<Rightarrow> py_error + ((Box \<times> Box) list \<times> rng)" where
  "horizontal_cuts r lo hi box 0 = Inr ([], r)"
| "horizontal_cuts r lo hi box (Suc k) =
     (case randint r lo hi of Inl e \<Rightarrow> Inl e | Inr (c, r1) \<Rightarrow>
      (case horizontal_cuts r1 lo hi box k of Inl e \<Rightarrow> Inl e
       | Inr (rest, r2) \<Rightarrow> Inr ((box\<lparr>Top := c\<rparr>, box\<lparr>Bottom := c + 1\<rparr>) # rest, r2)))"

text \<open>The key of \<^verbatim>\<open>max\<close>: the first half is averaged before the second.\<close>

definition pair_key :: "image \<Rightarrow> rng \<Rightarrow> Box \<times> Box \<Rightarrow> py_error + (real \<times> rng)" where
  "pair_key img r pair =
     (case average img r (fst pair) of Inl e \<Rightarrow> Inl e | Inr (c1, r1) \<Rightarrow>
      (case average img r1 (snd pair) of Inl e \<Rightarrow> Inl e | Inr (c2, r2) \<Rightarrow>
         Inr (distance c1 c2, r2)))"

text \<open>
  \<^verbatim>\<open>max(attempts, key=...)\<close> computes the key of every element in order and keeps the first
  element whose key is the largest.
\<close>

fun max_key ::
  "image \<Rightarrow> rng \<Rightarrow> Box \<times> Box \<Rightarrow> real \<Rightarrow> (Box \<times> Box) list \<Rightarrow> py_error + ((Box \<times> Box) \<times> rng)" where
  "max_key img r best bestval [] = Inr (best, r)"
| "max_key img r best bestval (p # ps) =
     (case pair_key img r p of Inl e \<Rightarrow> Inl e | Inr (v, r1) \<Rightarrow>
        if v > bestval then max_key img r1 p v ps else max_key img r1 best bestval ps)"

definition split ::
  "image \<Rightarrow> rng \<Rightarrow> int \<Rightarrow> int \<Rightarrow> Box \<Rightarrow> py_error + ((Box \<times> Box) option \<times> rng)" where
  "split img r cuts margin box =
     (let minx = min (Left box) (Right box);
          maxx = max (Left box) (Right box)
      in case (if minx + margin < maxx - margin
               then vertical_cuts r (minx + margin) (maxx + 1 - margin) box (nat cuts)
               else Inr ([], r)) of
           Inl e \<Rightarrow> Inl e
         | Inr (attempts1, r1) \<Rightarrow>
      (let miny = min (Top box) (Bottom box);
           maxy = max (Top box) (Bottom box)
       in case (if miny + margin < maxy - margin
                then horizontal_cuts r1 (miny + margin) (maxy + 1 - margin) box (nat cuts)
                else Inr ([], r1)) of
            Inl e \<Rightarrow> Inl e
          | Inr (attempts2, r2) \<Rightarrow>
              (case attempts1 @ attempts2 of
                 [] \<Rightarrow> Inr (None, r2)
               | p # ps \<Rightarrow>
                   (case pair_key img r2 p of Inl e \<Rightarrow> Inl e | Inr (v, r3) \<Rightarrow>
                    (case max_key img r3 p v ps of Inl e \<Rightarrow> Inl e
                     | Inr (best, r4) \<Rightarrow> Inr (Some best, r4))))))"

section \<open>PartitionBuilder: \<^verbatim>\<open>spawn\<close>, \<^verbatim>\<open>boxize\<close>\<close>

text \<open>
  The loop \<^verbatim>\<open>for i in range(count)\<close> of \<^verbatim>\<open>spawn\<close>, with the splitter closed over the image,
  \<^verbatim>\<open>cuts\<close> and \<^verbatim>\<open>margin\<close> as \<^verbatim>\<open>boxize\<close> builds it.
\<close>

fun spawn_loop ::
  "image \<Rightarrow> rng \<Rightarrow> int \<Rightarrow> int \<Rightarrow> int \<Rightarrow> int \<Rightarrow> Box list \<Rightarrow> py_error + (Box list \<times> rng)" where
  "spawn_loop img r cuts margin boxIndex i [] = Inr ([], r)"
| "spawn_loop img r cuts margin boxIndex i (b # bs) =
     (if i = boxIndex then
        (case split img r cuts margin b of Inl e \<Rightarrow> Inl e | Inr (split_result, r1) \<Rightarrow>
         (case spawn_loop img r1 cuts margin boxIndex (i + 1) bs of Inl e \<Rightarrow> Inl e
          | Inr (rest, r2) \<Rightarrow>
              Inr ((case split_result of None \<Rightarrow> [b] | Some (box1, box2) \<Rightarrow> [box1, box2]) @ rest, r2)))
      else
        (case spawn_loop img r cuts margin boxIndex (i + 1) bs of Inl e \<Rightarrow> Inl e
         | Inr (rest, r1) \<Rightarrow> Inr (b # rest, r1)))"

definition spawn :: "image \<Rightarrow> rng \<Rightarrow> int \<Rightarrow> int \<Rightarrow> Box list \<Rightarrow> py_error + (Box list \<times> rng)" where
  "spawn img r cuts margin boxes =
     (let count = int (length boxes)
      in case randint r 0 (count - 1) of Inl e \<Rightarrow> Inl e
         | Inr (boxIndex, r1) \<Rightarrow> spawn_loop img r1 cuts margin boxIndex 0 boxes)"

text \<open>
  The inner function \<^verbatim>\<open>fragment\<close> of \<^verbatim>\<open>boxize\<close> counts \<^verbatim>\<open>gen\<close> up to \<^verbatim>\<open>depth\<close>; it terminates
  since \<^verbatim>\<open>depth - gen\<close> decreases. The interpreter's recursion limit is a resource bound of
  the run-time that depends on the caller's stack; it is not part of the model. The statements
  below say that \<^verbatim>\<open>boxize\<close> returns only for \<^verbatim>\<open>depth <= 0\<close>, where nothing is called, and for
  given depths of at most 2.
\<close>

function fragment ::
  "image \<Rightarrow> rng \<Rightarrow> int \<Rightarrow> int \<Rightarrow> int \<Rightarrow> Box list \<Rightarrow> int \<Rightarrow> py_error + (Box list \<times> rng)" where
  "fragment img r cuts margin depth boxes gen =
     (if gen \<ge> depth then Inr (boxes, r)
      else (case spawn img r cuts margin boxes of Inl e \<Rightarrow> Inl e
            | Inr (more_boxes, r1) \<Rightarrow> fragment img r1 cuts margin depth more_boxes (gen + 1)))"
  by pat_completeness auto
termination
  by (relation "measure (\<lambda>(img, r, cuts, margin, depth, boxes, gen). nat (depth - gen))") auto

declare fragment.simps [simp del]

definition canvas_box :: "image \<Rightarrow> Box" where
  "canvas_box img = \<lparr>Top = height img - 1, Bottom = 0, Left = 0, Right = width img - 1\<rparr>"

definition boxize :: "image \<Rightarrow> rng \<Rightarrow> int \<Rightarrow> int \<Rightarrow> int \<Rightarrow> py_error + (Box list \<times> rng)" where
  "boxize img r cuts margin depth = fragment img r cuts margin depth [canvas_box img] 0"

section \<open>Recolorer: \<^verbatim>\<open>roundize\<close>, \<^verbatim>\<open>contrastize\<close>, \<^verbatim>\<open>colorize\<close>\<close>

text \<open>
  Python's \<^verbatim>\<open>round\<close> of a float rounds to the nearest integer and a tie to the even one;
  \<^verbatim>\<open>int\<close> of a float drops the fraction (towards zero).
\<close>

definition py_round :: "real \<Rightarrow> int" where
  "py_round x =
     (let f = \<lfloor>x\<rfloor>; d = x - of_int f
      in if d < 1 / 2 then f else if d > 1 / 2 then f + 1 else if even f then f else f + 1)"

definition py_int :: "real \<Rightarrow> int" where
  "py_int x = (if x \<ge> 0 then \<lfloor>x\<rfloor> else \<lceil>x\<rceil>)"

text \<open>
  The result of a float division or multiplication is the exact result rounded to the
  nearest double, a tie to the even significand, and an infinity when that reaches
  \<^verbatim>\<open>2 ** 1024\<close> (\<open>None\<close> here: neither operation raises, but \<^verbatim>\<open>round\<close> and \<^verbatim>\<open>int\<close> of an infinity
  raise \<^verbatim>\<open>OverflowError\<close>). \<open>binade x\<close> is the exponent \<open>e\<close> with \<open>2 ^ e \<le> x < 2 ^ (e + 1)\<close>, not
  below -1022 (the subnormal range) and not above 1024; a double of that binade is a multiple
  of \<open>2 ^ (e - 52)\<close>.
\<close>

fun binade_up :: "nat \<Rightarrow> real \<Rightarrow> int" where
  "binade_up 0 x = 0"
| "binade_up (Suc n) x = (if x < 2 then 0 else binade_up n (x / 2) + 1)"

fun binade_down :: "nat \<Rightarrow> real \<Rightarrow> int" where
  "binade_down 0 x = 0"
| "binade_down (Suc n) x = (if 1 \<le> x then 0 else binade_down n (2 * x) - 1)"

definition binade :: "real \<Rightarrow> int" where
  "binade x = (if 1 \<le> x then binade_up 1024 x else binade_down 1022 x)"

definition fl :: "real \<Rightarrow> real option" where
  "fl x =
     (if x = 0 then Some 0
      else (let e = binade \<bar>x\<bar>;
                u = 2 powi (e - 52);
                y = real_of_int (py_round (x / u)) * u
            in if 2 powi 1024 \<le> \<bar>y\<bar> then None else Some y))"

definition roundize :: "real \<Rightarrow> real \<Rightarrow> py_error + int" where
  "roundize v grain =
     (if grain = 0 then Inl ZeroDivisionError
      else (case fl (v / grain) of
              None \<Rightarrow> Inl OverflowError
            | Some q \<Rightarrow>
                (case fl (grain * real_of_int (py_round q)) of
                   None \<Rightarrow> Inl OverflowError
                 | Some p \<Rightarrow> (let v' = py_int p in if v' > 255 then Inr 255 else Inr v'))))"

definition contrastize :: "real \<Rightarrow> fcolor \<Rightarrow> py_error + color" where
  "contrastize grain color =
     (case color of (r, g, b) \<Rightarrow>
        (case roundize r grain of Inl e \<Rightarrow> Inl e | Inr r' \<Rightarrow>
         (case roundize g grain of Inl e \<Rightarrow> Inl e | Inr g' \<Rightarrow>
          (case roundize b grain of Inl e \<Rightarrow> Inl e | Inr b' \<Rightarrow> Inr (r', g', b')))))"

text \<open>\<^verbatim>\<open>whiteness\<close> is defined by the program but never called: \<^verbatim>\<open>colorize\<close> whitens by position.\<close>

definition whiteness :: "fcolor \<Rightarrow> real" where
  "whiteness color = (case color of (r, g, b) \<Rightarrow> min r (min g b))"

text \<open>The first loop of \<^verbatim>\<open>colorize\<close>: every box is averaged, also a box that is whitened.\<close>

fun colorize_colors ::
  "image \<Rightarrow> rng \<Rightarrow> int \<Rightarrow> real \<Rightarrow> int \<Rightarrow> Box list \<Rightarrow> py_error + ((Box \<times> color) list \<times> rng)" where
  "colorize_colors img r whitened contrast i [] = Inr ([], r)"
| "colorize_colors img r whitened contrast i (box # boxes) =
     (case average img r box of Inl e \<Rightarrow> Inl e | Inr (avg_color, r1) \<Rightarrow>
      (case (if i < whitened then Inr (255, 255, 255) else contrastize contrast avg_color) of
         Inl e \<Rightarrow> Inl e
       | Inr color \<Rightarrow>
          (case colorize_colors img r1 whitened contrast (i + 1) boxes of Inl e \<Rightarrow> Inl e
           | Inr (colors, r2) \<Rightarrow> Inr ((box, color) # colors, r2))))"

text \<open>
  The coordinates of \<^verbatim>\<open>for x in range(Left, Right + 1): for y in range(Bottom, Top + 1)\<close>, in the
  order of the loops; each one is read, then overwritten.
\<close>

definition box_pixels :: "Box \<Rightarrow> (int \<times> int) list" where
  "box_pixels box = [(x, y). x \<leftarrow> [Left box..Right box], y \<leftarrow> [Bottom box..Top box]]"

fun paint :: "image \<Rightarrow> (int \<times> int) list \<Rightarrow> color \<Rightarrow> py_error + image" where
  "paint img [] color = Inr img"
| "paint img (xy # xys) color =
     (case getpixel img xy of Inl e \<Rightarrow> Inl e | Inr pixel \<Rightarrow>
      (case putpixel img xy color of Inl e \<Rightarrow> Inl e | Inr img' \<Rightarrow> paint img' xys color))"

fun paint_boxes :: "image \<Rightarrow> (Box \<times> color) list \<Rightarrow> py_error + image" where
  "paint_boxes img [] = Inr img"
| "paint_boxes img ((box, color) # colors) =
     (case paint img (box_pixels box) color of Inl e \<Rightarrow> Inl e
      | Inr img' \<Rightarrow> paint_boxes img' colors)"

definition colorize ::
  "image \<Rightarrow> rng \<Rightarrow> real \<Rightarrow> real \<Rightarrow> Box list \<Rightarrow> py_error + (image \<times> rng)" where
  "colorize img r white contrast boxes =
     (let count = int (length boxes)
      in case fl (white * real_of_int count) of
           None \<Rightarrow> Inl OverflowError
         | Some product \<Rightarrow>
             (let whitened = py_int product
              in case colorize_colors img r whitened contrast 0 boxes of Inl e \<Rightarrow> Inl e
                 | Inr (colors, r1) \<Rightarrow>
                     (case paint_boxes img colors of Inl e \<Rightarrow> Inl e
                      | Inr img' \<Rightarrow> Inr (img', r1))))"

section \<open>BorderRenderer: \<^verbatim>\<open>borderize\<close>\<close>

text \<open>The coordinates that the generator \<^verbatim>\<open>borders(box)\<close> yields, in its order.\<close>

definition borders :: "image \<Rightarrow> int \<Rightarrow> Box \<Rightarrow> (int \<times> int) list" where
  "borders img margin box =
     (if margin > 0 then
        (if Bottom box > 0
         then [(x, Bottom box + m). x \<leftarrow> [Left box..Right box], m \<leftarrow> [0..margin]] else []) @
        (if Top box < height img - 1
         then [(x, Top box - m). x \<leftarrow> [Left box..Right box], m \<leftarrow> [0..margin]] else []) @
        (if Left box > 0
         then [(Left box + m, y). y \<leftarrow> [Bottom box..Top box], m \<leftarrow> [0..margin]] else []) @
        (if Right box < width img - 1
         then [(Right box - m, y). y \<leftarrow> [Bottom box..Top box], m \<leftarrow> [0..margin]] else [])
      else [])"

fun put_all :: "image \<Rightarrow> (int \<times> int) list \<Rightarrow> color \<Rightarrow> py_error + image" where
  "put_all img [] color = Inr img"
| "put_all img (xy # xys) color =
     (case putpixel img xy color of Inl e \<Rightarrow> Inl e | Inr img' \<Rightarrow> put_all img' xys color)"

text \<open>
  \<^verbatim>\<open>borderize\<close> reads \<^verbatim>\<open>img.width\<close> and \<^verbatim>\<open>img.height\<close> once; \<^verbatim>\<open>putpixel\<close> does not change them,
  so the generator is given the size through the first image.
\<close>

fun borderize_loop :: "image \<Rightarrow> image \<Rightarrow> int \<Rightarrow> Box list \<Rightarrow> py_error + image" where
  "borderize_loop img0 img margin [] = Inr img"
| "borderize_loop img0 img margin (box # boxes) =
     (case put_all img (borders img0 margin box) (0, 0, 0) of Inl e \<Rightarrow> Inl e
      | Inr img' \<Rightarrow> borderize_loop img0 img' margin boxes)"

definition borderize :: "image \<Rightarrow> int \<Rightarrow> Box list \<Rightarrow> py_error + image" where
  "borderize img margin boxes = borderize_loop img img margin boxes"

section \<open>The pipeline of \<^verbatim>\<open>main\<close>\<close>

definition marginWidth :: "int \<Rightarrow> int \<Rightarrow> int" where
  "marginWidth w h = min w h div 200"

definition minWidth :: "int \<Rightarrow> int \<Rightarrow> int" where
  "minWidth w h = (let borders = 2 * marginWidth w h; edge = min w h div 10 in max edge borders)"

text \<open>
  The three passes of \<^verbatim>\<open>main\<close> (partition, recolor, border) on one image object and one
  random source, with both margins as parameters. The result holds the final boxes beside
  the final image.
\<close>

definition full_run ::
  "image \<Rightarrow> rng \<Rightarrow> int \<Rightarrow> int \<Rightarrow> int \<Rightarrow> real \<Rightarrow> real \<Rightarrow> int \<Rightarrow>
     py_error + ((Box list \<times> image) \<times> rng)" where
  "full_run img r cuts edges depth white contrast margin =
     (case boxize img r cuts edges depth of Inl e \<Rightarrow> Inl e | Inr (boxes, r1) \<Rightarrow>
      (case colorize img r1 white contrast boxes of Inl e \<Rightarrow> Inl e | Inr (colorized, r2) \<Rightarrow>
       (case borderize colorized margin boxes of Inl e \<Rightarrow> Inl e
        | Inr borderized \<Rightarrow> Inr ((boxes, borderized), r2))))"

text \<open>
  \<^verbatim>\<open>main\<close> between loading and saving the image: the margins come from the image size;
  \<^verbatim>\<open>cuts\<close>, \<^verbatim>\<open>depth\<close>, \<^verbatim>\<open>white\<close> and \<^verbatim>\<open>contrast\<close> (constants of \<^verbatim>\<open>main\<close>) and the random source
  are parameters.
\<close>

definition pipeline ::
  "image \<Rightarrow> rng \<Rightarrow> int \<Rightarrow> int \<Rightarrow> real \<Rightarrow> real \<Rightarrow> py_error + ((Box list \<times> image) \<times> rng)" where
  "pipeline img r cuts depth white contrast =
     (let margin = marginWidth (width img) (height img);
          edges = minWidth (width img) (height img)
      in full_run img r cuts edges depth white contrast margin)"

section \<open>Notions of the specification\<close>

text \<open>
  A region with normalized bounds, in the orientation of the initial box: \<^verbatim>\<open>Left\<close> and
  \<^verbatim>\<open>Bottom\<close> are the minima. Its width, height and area count pixels.
\<close>

definition normalized :: "Box \<Rightarrow> bool" where
  "normalized b \<longleftrightarrow> Left b \<le> Right b \<and> Bottom b \<le> Top b"

definition box_width :: "Box \<Rightarrow> int" where
  "box_width b = Right b - Left b + 1"

definition box_height :: "Box \<Rightarrow> int" where
  "box_height b = Top b - Bottom b + 1"

definition area :: "Box \<Rightarrow> int" where
  "area b = box_width b * box_height b"

text \<open>The pixels of a box's bounding box, whichever way its bounds are ordered.\<close>

definition bbox :: "Box \<Rightarrow> (int \<times> int) set" where
  "bbox b = {min (Left b) (Right b)..max (Left b) (Right b)} \<times>
            {min (Top b) (Bottom b)..max (Top b) (Bottom b)}"

definition canvas :: "image \<Rightarrow> (int \<times> int) set" where
  "canvas img = {0..width img - 1} \<times> {0..height img - 1}"

definition bounds_within :: "image \<Rightarrow> Box \<Rightarrow> bool" where
  "bounds_within img b \<longleftrightarrow>
     0 \<le> Left b \<and> Left b \<le> width img - 1 \<and> 0 \<le> Right b \<and> Right b \<le> width img - 1 \<and>
     0 \<le> Bottom b \<and> Bottom b \<le> height img - 1 \<and> 0 \<le> Top b \<and> Top b \<le> height img - 1"

definition pairwise_disjoint :: "Box list \<Rightarrow> bool" where
  "pairwise_disjoint bs \<longleftrightarrow>
     (\<forall>i < length bs. \<forall>j < length bs. i \<noteq> j \<longrightarrow> bbox (bs ! i) \<inter> bbox (bs ! j) = {})"

text \<open>
  A valid partition of the canvas: every bound inside the canvas, the bounding boxes cover
  the canvas exactly, and no two of them share a pixel.
\<close>

definition valid_partition :: "image \<Rightarrow> Box list \<Rightarrow> bool" where
  "valid_partition img bs \<longleftrightarrow>
     (\<forall>b \<in> set bs. bounds_within img b) \<and>
     (\<Union>b \<in> set bs. bbox b) = canvas img \<and>
     pairwise_disjoint bs"

text \<open>
  What \<^verbatim>\<open>split\<close> can return for a box: a pair made by one cut \<^verbatim>\<open>c\<close> of the range
  \<^verbatim>\<open>[min + margin, max + 1 - margin]\<close> on an axis with \<^verbatim>\<open>min + margin < max - margin\<close>.
\<close>

definition vertical_cut :: "int \<Rightarrow> Box \<Rightarrow> Box \<times> Box \<Rightarrow> bool" where
  "vertical_cut margin box pair \<longleftrightarrow>
     (let minx = min (Left box) (Right box); maxx = max (Left box) (Right box)
      in minx + margin < maxx - margin \<and>
         (\<exists>c \<in> {minx + margin..maxx + 1 - margin}.
            pair = (box\<lparr>Right := c\<rparr>, box\<lparr>Left := c + 1\<rparr>)))"

definition horizontal_cut :: "int \<Rightarrow> Box \<Rightarrow> Box \<times> Box \<Rightarrow> bool" where
  "horizontal_cut margin box pair \<longleftrightarrow>
     (let miny = min (Top box) (Bottom box); maxy = max (Top box) (Bottom box)
      in miny + margin < maxy - margin \<and>
         (\<exists>c \<in> {miny + margin..maxy + 1 - margin}.
            pair = (box\<lparr>Top := c\<rparr>, box\<lparr>Bottom := c + 1\<rparr>)))"

text \<open>
  The \<^verbatim>\<open>margin + 1\<close> pixel rows or columns that start at one edge of a box and extend inward.
\<close>

definition bottom_strip :: "int \<Rightarrow> Box \<Rightarrow> (int \<times> int) set" where
  "bottom_strip margin box = {Left box..Right box} \<times> {Bottom box..Bottom box + margin}"

definition top_strip :: "int \<Rightarrow> Box \<Rightarrow> (int \<times> int) set" where
  "top_strip margin box = {Left box..Right box} \<times> {Top box - margin..Top box}"

definition left_strip :: "int \<Rightarrow> Box \<Rightarrow> (int \<times> int) set" where
  "left_strip margin box = {Left box..Left box + margin} \<times> {Bottom box..Top box}"

definition right_strip :: "int \<Rightarrow> Box \<Rightarrow> (int \<times> int) set" where
  "right_strip margin box = {Right box - margin..Right box} \<times> {Bottom box..Top box}"



text \<open>
  The random source after \<open>k\<close> draws. A computation is determined by its draws when every
  run reads a finite number \<open>k\<close> of values of the source, one after the other: any source
  that starts with the same \<open>k\<close> values gives the same result (or the same error) and is
  left \<open>k\<close> draws further.
\<close>

definition stream_from :: "nat \<Rightarrow> rng \<Rightarrow> rng" where
  "stream_from k r = (\<lambda>n. r (n + k))"

definition determined :: "(rng \<Rightarrow> py_error + ('a \<times> rng)) \<Rightarrow> bool" where
  "determined f \<longleftrightarrow>
     (\<forall>r. \<exists>k. \<forall>r2. (\<forall>n < k. r2 n = r n) \<longrightarrow>
        (case f r of
           Inl e \<Rightarrow> f r2 = Inl e
         | Inr (x, r') \<Rightarrow> r' = stream_from k r \<and> f r2 = Inr (x, stream_from k r2)))"

text \<open>
  The invariant of the partition builder: a valid partition whose boxes keep the orientation
  of the initial box.
\<close>

definition good_partition :: "image \<Rightarrow> Box list \<Rightarrow> bool" where
  "good_partition img bs \<longleftrightarrow>
     (\<forall>b \<in> set bs. normalized b) \<and> (\<Union>b \<in> set bs. bbox b) = canvas img \<and> pairwise_disjoint bs"

section \<open>Concrete inputs\<close>

text \<open>An all-white image of the given size, and the random source that always produces 0.\<close>

definition blank :: "int \<Rightarrow> int \<Rightarrow> image" where
  "blank w h = \<lparr>width = w, height = h, pix = (\<lambda>xy. (255, 255, 255))\<rparr>"

definition zeros :: rng where
  "zeros = (\<lambda>n. 0)"

text \<open>A uniformly grey image, every channel 130.\<close>

definition gray :: "int \<Rightarrow> int \<Rightarrow> image" where
  "gray w h = \<lparr>width = w, height = h, pix = (\<lambda>xy. (130, 130, 130))\<rparr>"

text \<open>The random source whose raw values are the listed ones, then 0 for ever.\<close>

definition stream_of :: "nat list \<Rightarrow> rng" where
  "stream_of xs = (\<lambda>n. if n < length xs then xs ! n else 0)"

text \<open>The random source whose raw values are 0, 3, 6, ...: no two of them are equal.\<close>

definition triples :: rng where
  "triples = (\<lambda>n. 3 * n)"

section \<open>The sample count and the colour estimator\<close>

lemma sampler_two_wide: "Right box = Left box + 1 \<Longrightarrow> sampler box = 0"
  by (simp add: sampler_def maxSample_def)

text \<open>On a single pixel inside the image the estimator draws one sample and returns that pixel.\<close>

lemma average_one_pixel:
  assumes "Left box = Right box" "Top box = Bottom box"
    "0 \<le> Left box" "Left box < width img" "0 \<le> Bottom box" "Bottom box < height img"
  shows "sampler box = 1 \<and>
         average img r box =
           Inr ((real_of_int (fst (pix img (Left box, Bottom box))),
                 real_of_int (fst (snd (pix img (Left box, Bottom box)))),
                 real_of_int (snd (snd (pix img (Left box, Bottom box))))), \<lambda>n. r (Suc (Suc n)))"
  using assms
  by (simp add: sampler_def maxSample_def average_def randint_def getpixel_def inside_def
        wrap_xy_def channel_mean_def)

text \<open>
  Claim C10. On a box whose x extent is exactly 2 (\<^verbatim>\<open>Right = Left + 1\<close>) the sample count is
  zero, no sample is drawn (the random source is left as it was) and \<^verbatim>\<open>average\<close> fails with a
  division by zero, whatever the image and the random source; and whenever \<^verbatim>\<open>Left < Right\<close>
  the width that \<^verbatim>\<open>sampler\<close> uses is the true width minus 2.
\<close>

theorem average_two_wide_fails:
  "(Right box = Left box + 1 \<longrightarrow>
      sampler box = 0 \<and>
      draw_samples img r (min (Left box) (Right box)) (max (Left box) (Right box))
        (min (Top box) (Bottom box)) (max (Top box) (Bottom box)) (nat (sampler box)) = Inr ([], r) \<and>
      average img r box = Inl ZeroDivisionError) \<and>
   (Left box < Right box \<longrightarrow>
      sampler box = min ((box_width box - 2) * \<bar>Top box - Bottom box + 1\<bar>) maxSample)"
  by (simp add: sampler_def maxSample_def average_def box_width_def Let_def)

theorem average_two_wide_fails_witness:
  "Right \<lparr>Top = 0, Bottom = 0, Left = 0, Right = 1\<rparr> = Left \<lparr>Top = 0, Bottom = 0, Left = 0, Right = 1\<rparr> + 1 \<and>
   Left \<lparr>Top = 0, Bottom = 0, Left = 0, Right = 1\<rparr> < Right \<lparr>Top = 0, Bottom = 0, Left = 0, Right = 1\<rparr> \<and>
   sampler \<lparr>Top = 0, Bottom = 0, Left = 0, Right = 1\<rparr> = 0 \<and>
   average (blank 2 1) zeros \<lparr>Top = 0, Bottom = 0, Left = 0, Right = 1\<rparr> = Inl ZeroDivisionError"
  using average_two_wide_fails [of "\<lparr>Top = 0, Bottom = 0, Left = 0, Right = 1\<rparr>" "blank 2 1" zeros]
  by simp

text \<open>
  Claim C3. The estimator should draw \<^verbatim>\<open>min(area, 100)\<close> samples. On the 3 by 1 region
  \<^verbatim>\<open>Box(Top=0, Bottom=0, Left=0, Right=2)\<close> the area is 3 and \<^verbatim>\<open>min(area, 100)\<close> is 3, but
  \<^verbatim>\<open>sampler\<close> counts 1 sample; on the 2 by 1 region \<^verbatim>\<open>Box(Top=0, Bottom=0, Left=0, Right=1)\<close> it
  counts 0 and \<^verbatim>\<open>average\<close> raises a division by zero instead of returning a mean.
\<close>

theorem sampler_undercounts:
  "area \<lparr>Top = 0, Bottom = 0, Left = 0, Right = 2\<rparr> = 3 \<and>
   min (area \<lparr>Top = 0, Bottom = 0, Left = 0, Right = 2\<rparr>) maxSample = 3 \<and>
   sampler \<lparr>Top = 0, Bottom = 0, Left = 0, Right = 2\<rparr> = 1 \<and>
   min (area \<lparr>Top = 0, Bottom = 0, Left = 0, Right = 1\<rparr>) maxSample = 2 \<and>
   sampler \<lparr>Top = 0, Bottom = 0, Left = 0, Right = 1\<rparr> = 0 \<and>
   average (blank 2 1) zeros \<lparr>Top = 0, Bottom = 0, Left = 0, Right = 1\<rparr> = Inl ZeroDivisionError"
  by (simp add: area_def box_width_def box_height_def sampler_def maxSample_def average_def)

section \<open>The rounding of floats\<close>











lemma binade_up_numeral:
  "binade_up (numeral k) x = (if x < 2 then 0 else binade_up (pred_numeral k) (x / 2) + 1)"
  by (simp add: numeral_eq_Suc)

lemma binade_down_numeral:
  "binade_down (numeral k) x = (if 1 \<le> x then 0 else binade_down (pred_numeral k) (2 * x) - 1)"
  by (simp add: numeral_eq_Suc)

lemmas fl_eval = fl_def binade_def binade_up_numeral binade_down_numeral Let_def py_round_def
  py_int_def

text \<open>The model rounds as the machine does: 1.2 and 0.1 are the doubles Python prints.\<close>

lemma fl_examples:
  "fl (6 / 5) = Some (5404319552844595 / 4503599627370496)"
  "fl (1 / 10) = Some (3602879701896397 / 36028797018963968)"
  by (simp_all add: fl_eval)

section \<open>Quantization\<close>











text \<open>
  Where the quotient or the product is not a double the two operations round: for the
  value 3 and the double nearest to 0.3 the result is 3, though ten times that double is
  below 3.
\<close>

lemma roundize_rounds_with_the_machine:
  "roundize 3 (5404319552844595 / 18014398509481984) = Inr 3"
  by (simp add: roundize_def fl_eval)



section \<open>What \<^verbatim>\<open>split\<close> returns\<close>

lemma randint_range: "randint r a b = Inr (c, r') \<Longrightarrow> a \<le> c \<and> c \<le> b"
proof -
  assume h: "randint r a b = Inr (c, r')"
  then have ab: "a \<le> b" by (auto simp: randint_def split: if_splits)
  have "r 0 mod nat (b - a + 1) < nat (b - a + 1)" using ab by (intro mod_less_divisor) simp
  then have "int (r 0 mod nat (b - a + 1)) < b - a + 1" using ab by linarith
  then show ?thesis using h ab by (auto simp: randint_def split: if_splits)
qed

lemma vertical_cuts_set:
  "vertical_cuts r lo hi box k = Inr (ps, r') \<Longrightarrow>
     \<forall>p \<in> set ps. \<exists>c \<in> {lo..hi}. p = (box\<lparr>Right := c\<rparr>, box\<lparr>Left := c + 1\<rparr>)"
proof (induction k arbitrary: r ps)
  case 0
  then show ?case by simp
next
  case (Suc k)
  from Suc.prems obtain c r1 rest where
    c: "randint r lo hi = Inr (c, r1)" and
    rest: "vertical_cuts r1 lo hi box k = Inr (rest, r')" and
    ps: "ps = (box\<lparr>Right := c\<rparr>, box\<lparr>Left := c + 1\<rparr>) # rest"
    by (auto split: sum.splits prod.splits)
  have "c \<in> {lo..hi}" using randint_range[OF c] by simp
  then show ?case using Suc.IH[OF rest] ps by auto
qed

lemma horizontal_cuts_set:
  "horizontal_cuts r lo hi box k = Inr (ps, r') \<Longrightarrow>
     \<forall>p \<in> set ps. \<exists>c \<in> {lo..hi}. p = (box\<lparr>Top := c\<rparr>, box\<lparr>Bottom := c + 1\<rparr>)"
proof (induction k arbitrary: r ps)
  case 0
  then show ?case by simp
next
  case (Suc k)
  from Suc.prems obtain c r1 rest where
    c: "randint r lo hi = Inr (c, r1)" and
    rest: "horizontal_cuts r1 lo hi box k = Inr (rest, r')" and
    ps: "ps = (box\<lparr>Top := c\<rparr>, box\<lparr>Bottom := c + 1\<rparr>) # rest"
    by (auto split: sum.splits prod.splits)
  have "c \<in> {lo..hi}" using randint_range[OF c] by simp
  then show ?case using Suc.IH[OF rest] ps by auto
qed

lemma max_key_mem: "max_key img r best v ps = Inr (res, r') \<Longrightarrow> res = best \<or> res \<in> set ps"
  by (induction ps arbitrary: r best v) (auto split: sum.splits prod.splits if_splits)

lemma split_Some:
  assumes "split img r cuts margin box = Inr (Some pair, r')"
  shows "vertical_cut margin box pair \<or> horizontal_cut margin box pair"
proof -
  let ?minx = "min (Left box) (Right box)" and ?maxx = "max (Left box) (Right box)"
  let ?miny = "min (Top box) (Bottom box)" and ?maxy = "max (Top box) (Bottom box)"
  let ?V = "if ?minx + margin < ?maxx - margin
               then vertical_cuts r (?minx + margin) (?maxx + 1 - margin) box (nat cuts)
               else Inr ([], r)"
  from assms obtain a1 r1 where v: "?V = Inr (a1, r1)"
    by (auto simp: split_def Let_def split: sum.splits prod.splits)
  let ?H = "if ?miny + margin < ?maxy - margin
                then horizontal_cuts r1 (?miny + margin) (?maxy + 1 - margin) box (nat cuts)
                else Inr ([], r1)"
  from assms v obtain a2 r2 where h: "?H = Inr (a2, r2)"
    by (auto simp: split_def Let_def split: sum.splits prod.splits)
  from assms v h obtain p ps v0 r3 where
    ps: "a1 @ a2 = p # ps" and mk: "max_key img r3 p v0 ps = Inr (pair, r')"
    by (auto simp: split_def Let_def split: sum.splits prod.splits list.splits)
  have "pair \<in> set (p # ps)" using max_key_mem[OF mk] by auto
  then have mem: "pair \<in> set (a1 @ a2)" using ps by simp
  have "\<forall>p \<in> set a1. vertical_cut margin box p"
    using v vertical_cuts_set[of _ _ _ box "nat cuts" a1 r1]
    by (auto simp: vertical_cut_def Let_def split: if_splits)
  moreover have "\<forall>p \<in> set a2. horizontal_cut margin box p"
    using h horizontal_cuts_set[of _ _ _ box "nat cuts" a2 r2]
    by (auto simp: horizontal_cut_def Let_def split: if_splits)
  ultimately show ?thesis using mem by auto
qed

lemma bbox_normalized: "normalized b \<Longrightarrow> bbox b = {Left b..Right b} \<times> {Bottom b..Top b}"
  by (simp add: bbox_def normalized_def min_absorb1 min_absorb2 max_absorb1 max_absorb2)

lemma vertical_cut_geom:
  assumes "normalized box" "2 \<le> margin" "vertical_cut margin box (b1, b2)"
  shows "normalized b1 \<and> normalized b2 \<and> bbox b1 \<union> bbox b2 = bbox box \<and> bbox b1 \<inter> bbox b2 = {}
         \<and> 0 < area b1 \<and> 0 < area b2"
proof -
  from assms obtain c where c: "Left box + margin \<le> c" "c \<le> Right box + 1 - margin"
      "b1 = box\<lparr>Right := c\<rparr>" "b2 = box\<lparr>Left := c + 1\<rparr>"
    by (auto simp: vertical_cut_def normalized_def Let_def min_def max_def split: if_splits)
  have n1: "normalized b1" and n2: "normalized b2" using c assms(1,2) by (auto simp: normalized_def)
  have "bbox b1 \<union> bbox b2 = bbox box" "bbox b1 \<inter> bbox b2 = {}"
    unfolding bbox_normalized[OF n1] bbox_normalized[OF n2] bbox_normalized[OF assms(1)]
    using c assms(1,2) by (auto simp: normalized_def)
  moreover have "0 < area b1" "0 < area b2" using c assms(1,2)
    by (auto simp: area_def box_width_def box_height_def normalized_def)
  ultimately show ?thesis using n1 n2 by simp
qed

lemma horizontal_cut_geom:
  assumes "normalized box" "2 \<le> margin" "horizontal_cut margin box (b1, b2)"
  shows "normalized b1 \<and> normalized b2 \<and> bbox b1 \<union> bbox b2 = bbox box \<and> bbox b1 \<inter> bbox b2 = {}
         \<and> 0 < area b1 \<and> 0 < area b2"
proof -
  from assms obtain c where c: "Bottom box + margin \<le> c" "c \<le> Top box + 1 - margin"
      "b1 = box\<lparr>Top := c\<rparr>" "b2 = box\<lparr>Bottom := c + 1\<rparr>"
    by (auto simp: horizontal_cut_def normalized_def Let_def min_def max_def split: if_splits)
  have n1: "normalized b1" and n2: "normalized b2" using c assms(1,2) by (auto simp: normalized_def)
  have "bbox b1 \<union> bbox b2 = bbox box" "bbox b1 \<inter> bbox b2 = {}"
    unfolding bbox_normalized[OF n1] bbox_normalized[OF n2] bbox_normalized[OF assms(1)]
    using c assms(1,2) by (auto simp: normalized_def)
  moreover have "0 < area b1" "0 < area b2" using c assms(1,2)
    by (auto simp: area_def box_width_def box_height_def normalized_def)
  ultimately show ?thesis using n1 n2 by simp
qed

section \<open>The partition invariant\<close>

lemma pairwise_disjoint_Nil: "pairwise_disjoint []"
  by (simp add: pairwise_disjoint_def)

lemma pairwise_disjoint_Cons:
  "pairwise_disjoint (b # bs) \<longleftrightarrow> (\<forall>c \<in> set bs. bbox b \<inter> bbox c = {}) \<and> pairwise_disjoint bs"
proof
  assume h: "pairwise_disjoint (b # bs)"
  have "bbox b \<inter> bbox c = {}" if "c \<in> set bs" for c
  proof -
    from that obtain j where j: "j < length bs" "bs ! j = c" by (auto simp: in_set_conv_nth)
    have "0 < length (b # bs)" "Suc j < length (b # bs)" "0 \<noteq> Suc j" using j(1) by auto
    with h have "bbox ((b # bs) ! 0) \<inter> bbox ((b # bs) ! Suc j) = {}"
      unfolding pairwise_disjoint_def by blast
    then show ?thesis using j by simp
  qed
  moreover have "pairwise_disjoint bs"
    unfolding pairwise_disjoint_def
  proof (intro allI impI)
    fix i j assume "i < length bs" "j < length bs" "i \<noteq> j"
    then have "Suc i < length (b # bs)" "Suc j < length (b # bs)" "Suc i \<noteq> Suc j" by auto
    with h have "bbox ((b # bs) ! Suc i) \<inter> bbox ((b # bs) ! Suc j) = {}"
      unfolding pairwise_disjoint_def by blast
    then show "bbox (bs ! i) \<inter> bbox (bs ! j) = {}" by simp
  qed
  ultimately show "(\<forall>c \<in> set bs. bbox b \<inter> bbox c = {}) \<and> pairwise_disjoint bs" by blast
next
  assume h: "(\<forall>c \<in> set bs. bbox b \<inter> bbox c = {}) \<and> pairwise_disjoint bs"
  show "pairwise_disjoint (b # bs)"
    unfolding pairwise_disjoint_def
  proof (intro allI impI)
    fix i j assume ij: "i < length (b # bs)" "j < length (b # bs)" "i \<noteq> j"
    show "bbox ((b # bs) ! i) \<inter> bbox ((b # bs) ! j) = {}"
    proof (cases i)
      case 0
      then obtain j' where "j = Suc j'" using ij by (cases j) auto
      then show ?thesis using 0 h ij by auto
    next
      case (Suc i')
      show ?thesis
      proof (cases j)
        case 0
        then show ?thesis using Suc h ij by (auto simp: Int_commute)
      next
        case (Suc j')
        then show ?thesis using \<open>i = Suc i'\<close> h ij by (auto simp: pairwise_disjoint_def)
      qed
    qed
  qed
qed

lemma split_geom:
  assumes "normalized box" "2 \<le> margin" "split img r cuts margin box = Inr (Some (b1, b2), r')"
  shows "normalized b1 \<and> normalized b2 \<and> bbox b1 \<union> bbox b2 = bbox box \<and> bbox b1 \<inter> bbox b2 = {}
         \<and> 0 < area b1 \<and> 0 < area b2"
  using split_Some[OF assms(3)] vertical_cut_geom[OF assms(1,2)] horizontal_cut_geom[OF assms(1,2)]
  by blast

lemma spawn_loop_refines:
  assumes "2 \<le> margin"
  shows "(\<forall>b \<in> set bs. normalized b) \<Longrightarrow> spawn_loop img r cuts margin k i bs = Inr (bs', r') \<Longrightarrow>
     (\<forall>b \<in> set bs'. normalized b) \<and> (\<Union>b \<in> set bs'. bbox b) = (\<Union>b \<in> set bs. bbox b) \<and>
     (pairwise_disjoint bs \<longrightarrow> pairwise_disjoint bs')"
proof (induction bs arbitrary: r i bs')
  case Nil
  then show ?case by simp
next
  case (Cons b bs)
  have nb: "normalized b" and nbs: "\<forall>b \<in> set bs. normalized b" using Cons.prems(1) by auto
  show ?case
  proof (cases "i = k")
    case False
    with Cons.prems(2) obtain rest where
      rest: "spawn_loop img r cuts margin k (i + 1) bs = Inr (rest, r')" and bs': "bs' = b # rest"
      by (auto split: sum.splits prod.splits)
    from Cons.IH[OF nbs rest] show ?thesis using bs' nb
      by (auto simp: pairwise_disjoint_Cons)
  next
    case True
    with Cons.prems(2) obtain res r1 rest where
      sp: "split img r cuts margin b = Inr (res, r1)" and
      rest: "spawn_loop img r1 cuts margin k (i + 1) bs = Inr (rest, r')" and
      bs': "bs' = (case res of None \<Rightarrow> [b] | Some (box1, box2) \<Rightarrow> [box1, box2]) @ rest"
      by (auto split: sum.splits prod.splits)
    note IH = Cons.IH[OF nbs rest]
    show ?thesis
    proof (cases res)
      case None
      then show ?thesis using IH bs' nb by (auto simp: pairwise_disjoint_Cons)
    next
      case (Some pair)
      obtain b1 b2 where pair: "pair = (b1, b2)" by (cases pair)
      have g: "normalized b1" "normalized b2" "bbox b1 \<union> bbox b2 = bbox b" "bbox b1 \<inter> bbox b2 = {}"
        using split_geom[OF nb assms] sp Some pair by auto
      have bs'': "bs' = b1 # b2 # rest" using bs' Some pair by simp
      have 1: "\<forall>b \<in> set bs'. normalized b" using IH g bs'' by auto
      have 2: "(\<Union>b \<in> set bs'. bbox b) = (\<Union>b \<in> set (b # bs). bbox b)"
        using IH g(3) bs'' by auto
      have 3: "pairwise_disjoint bs'" if pd: "pairwise_disjoint (b # bs)"
      proof -
        have d: "\<forall>c \<in> set bs. bbox b \<inter> bbox c = {}" and pdbs: "pairwise_disjoint bs"
          using pd by (auto simp: pairwise_disjoint_Cons)
        have "bbox b \<inter> (\<Union>c \<in> set bs. bbox c) = {}" using d by blast
        then have "bbox b \<inter> (\<Union>c \<in> set rest. bbox c) = {}" using IH by simp
        then have "\<forall>c \<in> set rest. bbox b1 \<inter> bbox c = {}" "\<forall>c \<in> set rest. bbox b2 \<inter> bbox c = {}"
          using g(3) by blast+
        then show ?thesis using IH pdbs g(4) bs'' by (auto simp: pairwise_disjoint_Cons)
      qed
      from 1 2 3 show ?thesis by blast
    qed
  qed
qed

lemma spawn_good:
  assumes "2 \<le> margin" "good_partition img bs" "spawn img r cuts margin bs = Inr (bs', r')"
  shows "good_partition img bs'"
proof -
  from assms(3) obtain k r1 where "spawn_loop img r1 cuts margin k 0 bs = Inr (bs', r')"
    by (auto simp: spawn_def Let_def split: sum.splits prod.splits)
  from spawn_loop_refines[OF assms(1) _ this] assms(2) show ?thesis
    by (auto simp: good_partition_def)
qed

lemma fragment_good:
  "2 \<le> margin \<Longrightarrow> good_partition img bs \<Longrightarrow>
   fragment img r cuts margin depth bs gen = Inr (bs', r') \<Longrightarrow> good_partition img bs'"
proof (induction img r cuts margin depth bs gen rule: fragment.induct)
  case (1 img r cuts margin depth boxes gen)
  show ?case
  proof (cases "gen \<ge> depth")
    case True
    then show ?thesis using "1.prems" by (simp add: fragment.simps)
  next
    case False
    with "1.prems"(3) obtain more r1 where
      sp: "spawn img r cuts margin boxes = Inr (more, r1)" and
      fr: "fragment img r1 cuts margin depth more (gen + 1) = Inr (bs', r')"
      by (subst (asm) fragment.simps) (auto split: sum.splits prod.splits)
    have "good_partition img more" using spawn_good[OF "1.prems"(1,2) sp] .
    from "1.IH"[OF False sp refl "1.prems"(1) this fr] show ?thesis .
  qed
qed

lemma canvas_good:
  assumes "1 \<le> width img" "1 \<le> height img"
  shows "good_partition img [canvas_box img]"
proof -
  have n: "normalized (canvas_box img)" using assms by (simp add: normalized_def canvas_box_def)
  have "bbox (canvas_box img) = canvas img"
    unfolding bbox_normalized[OF n] by (simp add: canvas_def canvas_box_def)
  moreover have "pairwise_disjoint [canvas_box img]"
    by (simp add: pairwise_disjoint_Cons pairwise_disjoint_Nil)
  ultimately show ?thesis using n by (simp add: good_partition_def)
qed

lemma normalized_within:
  assumes "normalized b" "bbox b \<subseteq> canvas img"
  shows "bounds_within img b"
proof -
  have "(Left b, Bottom b) \<in> bbox b" "(Right b, Top b) \<in> bbox b"
    using assms(1) by (auto simp: bbox_normalized normalized_def)
  then have "(Left b, Bottom b) \<in> canvas img" "(Right b, Top b) \<in> canvas img"
    using assms(2) by blast+
  then show ?thesis using assms(1) by (auto simp: canvas_def bounds_within_def normalized_def)
qed

lemma good_valid:
  assumes "good_partition img bs"
  shows "valid_partition img bs"
proof -
  from assms have n: "\<forall>b \<in> set bs. normalized b" and u: "(\<Union>b \<in> set bs. bbox b) = canvas img"
    and d: "pairwise_disjoint bs" by (simp_all add: good_partition_def)
  have "bounds_within img b" if "b \<in> set bs" for b
  proof -
    have "bbox b \<subseteq> canvas img" using that u by blast
    then show ?thesis using n that normalized_within by blast
  qed
  then show ?thesis using u d by (simp add: valid_partition_def)
qed

lemmas eval_defs = boxize_def fragment.simps canvas_box_def spawn_def blank_def zeros_def stream_of_def
  randint_def split_def Let_def pair_key_def average_def sampler_def maxSample_def getpixel_def
  inside_def wrap_xy_def channel_mean_def distance_def numeral_2_eq_2

text \<open>
  Claim C2, as stated, fails for margin 0: on the 3 by 1 region \<^verbatim>\<open>Box(Top=0, Bottom=0, Left=0, Right=2)\<close>
  with one cut drawn at \<^verbatim>\<open>c = 2\<close> (inside \<^verbatim>\<open>[0, 3]\<close>), \<^verbatim>\<open>split\<close> returns the region itself and
  \<^verbatim>\<open>Box(Top=0, Bottom=0, Left=3, Right=2)\<close>, which has no area and whose bounding box shares the
  pixel (2, 0) with the first.
\<close>

theorem split_margin0_counterexample:
  "normalized \<lparr>Top = 0, Bottom = 0, Left = 0, Right = 2\<rparr> \<and> (0::int) \<le> 0 \<and> (0::int) < 1 \<and>
   map_sum id fst (split (blank 3 1) (stream_of [2]) 1 0 \<lparr>Top = 0, Bottom = 0, Left = 0, Right = 2\<rparr>)
     = Inr (Some (\<lparr>Top = 0, Bottom = 0, Left = 0, Right = 2\<rparr>, \<lparr>Top = 0, Bottom = 0, Left = 3, Right = 2\<rparr>)) \<and>
   area \<lparr>Top = 0, Bottom = 0, Left = 3, Right = 2\<rparr> = 0 \<and>
   (2, 0) \<in> bbox \<lparr>Top = 0, Bottom = 0, Left = 0, Right = 2\<rparr> \<inter> bbox \<lparr>Top = 0, Bottom = 0, Left = 3, Right = 2\<rparr>"
proof -
  have "map_sum id fst (split (blank 3 1) (stream_of [2]) 1 0 \<lparr>Top = 0, Bottom = 0, Left = 0, Right = 2\<rparr>)
     = Inr (Some (\<lparr>Top = 0, Bottom = 0, Left = 0, Right = 2\<rparr>, \<lparr>Top = 0, Bottom = 0, Left = 3, Right = 2\<rparr>))"
    by (simp add: eval_defs)
  then show ?thesis
    by (simp add: normalized_def area_def box_width_def box_height_def bbox_def)
qed

text \<open>
  Claim C2, amended. For every region with normalized bounds, every margin of at least 2 and
  every \<^verbatim>\<open>cuts\<close>, whenever \<^verbatim>\<open>split\<close> returns a pair, the two regions have normalized bounds,
  their union is the input region, they share no pixel, each has positive area, and they are
  the two sides of one cut \<^verbatim>\<open>c\<close> (the first ends at \<^verbatim>\<open>c\<close>, the second starts at \<^verbatim>\<open>c + 1\<close>) taken
  from \<^verbatim>\<open>[min + margin, max + 1 - margin]\<close> on an axis with \<^verbatim>\<open>min + margin < max - margin\<close>.
\<close>

theorem split_partitions:
  assumes "normalized box" "2 \<le> margin"
    "split img r cuts margin box = Inr (Some (box1, box2), r')"
  shows "bbox box1 \<union> bbox box2 = bbox box \<and> bbox box1 \<inter> bbox box2 = {} \<and>
         0 < area box1 \<and> 0 < area box2 \<and> normalized box1 \<and> normalized box2 \<and>
         (vertical_cut margin box (box1, box2) \<or> horizontal_cut margin box (box1, box2))"
  using split_geom[OF assms] split_Some[OF assms(3)] by blast

theorem split_partitions_witness:
  "normalized \<lparr>Top = 0, Bottom = 0, Left = 0, Right = 5\<rparr> \<and> (2::int) \<le> 2 \<and>
   split (blank 6 1) zeros 1 2 \<lparr>Top = 0, Bottom = 0, Left = 0, Right = 5\<rparr>
     = Inr (Some (\<lparr>Top = 0, Bottom = 0, Left = 0, Right = 2\<rparr>, \<lparr>Top = 0, Bottom = 0, Left = 3, Right = 5\<rparr>), zeros) \<and>
   bbox \<lparr>Top = 0, Bottom = 0, Left = 0, Right = 2\<rparr> \<union> bbox \<lparr>Top = 0, Bottom = 0, Left = 3, Right = 5\<rparr>
     = bbox \<lparr>Top = 0, Bottom = 0, Left = 0, Right = 5\<rparr> \<and>
   bbox \<lparr>Top = 0, Bottom = 0, Left = 0, Right = 2\<rparr> \<inter> bbox \<lparr>Top = 0, Bottom = 0, Left = 3, Right = 5\<rparr> = {} \<and>
   0 < area \<lparr>Top = 0, Bottom = 0, Left = 0, Right = 2\<rparr> \<and> 0 < area \<lparr>Top = 0, Bottom = 0, Left = 3, Right = 5\<rparr>"
proof -
  have n: "normalized \<lparr>Top = 0, Bottom = 0, Left = 0, Right = 5\<rparr>" by (simp add: normalized_def)
  have m: "(2::int) \<le> 2" by simp
  have e: "split (blank 6 1) zeros 1 2 \<lparr>Top = 0, Bottom = 0, Left = 0, Right = 5\<rparr>
     = Inr (Some (\<lparr>Top = 0, Bottom = 0, Left = 0, Right = 2\<rparr>, \<lparr>Top = 0, Bottom = 0, Left = 3, Right = 5\<rparr>), zeros)"
    by (simp add: eval_defs)
  show ?thesis using split_partitions[OF n m e] n m e by blast
qed

text \<open>
  Claim C1, as stated, fails for margin 0: on a 3 by 1 image, with one cut drawn at \<^verbatim>\<open>c = 2\<close>,
  the builder holds after its first step the whole canvas and \<^verbatim>\<open>Box(Top=0, Bottom=0, Left=3, Right=2)\<close>,
  whose left bound is outside the canvas.
\<close>

theorem boxize_margin0_counterexample:
  "(0::int) \<le> 0 \<and> (0::int) < 1 \<and>
   map_sum id fst (boxize (blank 3 1) (stream_of [0, 2]) 1 0 1)
     = Inr [\<lparr>Top = 0, Bottom = 0, Left = 0, Right = 2\<rparr>, \<lparr>Top = 0, Bottom = 0, Left = 3, Right = 2\<rparr>] \<and>
   \<not> valid_partition (blank 3 1)
       [\<lparr>Top = 0, Bottom = 0, Left = 0, Right = 2\<rparr>, \<lparr>Top = 0, Bottom = 0, Left = 3, Right = 2\<rparr>]"
proof -
  have "map_sum id fst (boxize (blank 3 1) (stream_of [0, 2]) 1 0 1)
     = Inr [\<lparr>Top = 0, Bottom = 0, Left = 0, Right = 2\<rparr>, \<lparr>Top = 0, Bottom = 0, Left = 3, Right = 2\<rparr>]"
    by (simp add: eval_defs)
  moreover have "\<not> valid_partition (blank 3 1)
       [\<lparr>Top = 0, Bottom = 0, Left = 0, Right = 2\<rparr>, \<lparr>Top = 0, Bottom = 0, Left = 3, Right = 2\<rparr>]"
    by (simp add: valid_partition_def bounds_within_def blank_def)
  ultimately show ?thesis by simp
qed

text \<open>
  Claim C1, amended. For every image of at least 1 by 1 pixels, every margin of at least 2,
  every \<^verbatim>\<open>cuts\<close> and every random source: whatever number of generations \<^verbatim>\<open>boxize\<close> completes,
  the boxes it holds are a valid partition of the canvas with normalized bounds; and each
  single generation step \<^verbatim>\<open>spawn\<close> that completes on such a partition leaves such a partition.
\<close>

theorem boxize_partition:
  assumes "2 \<le> margin" "1 \<le> width img" "1 \<le> height img"
  shows "(boxize img r cuts margin depth = Inr (boxes, r') \<longrightarrow>
            valid_partition img boxes \<and> (\<forall>b \<in> set boxes. normalized b)) \<and>
         (valid_partition img bs \<and> (\<forall>b \<in> set bs. normalized b) \<and>
          spawn img r cuts margin bs = Inr (bs', r') \<longrightarrow>
            valid_partition img bs' \<and> (\<forall>b \<in> set bs'. normalized b))"
proof (intro conjI impI)
  assume "boxize img r cuts margin depth = Inr (boxes, r')"
  then have "fragment img r cuts margin depth [canvas_box img] 0 = Inr (boxes, r')"
    by (simp add: boxize_def)
  then have g: "good_partition img boxes"
    using fragment_good[OF assms(1) canvas_good[OF assms(2,3)]] by blast
  show "valid_partition img boxes" using good_valid[OF g] .
  show "\<forall>b \<in> set boxes. normalized b" using g by (simp add: good_partition_def)
next
  assume h: "valid_partition img bs \<and> (\<forall>b \<in> set bs. normalized b) \<and>
          spawn img r cuts margin bs = Inr (bs', r')"
  then have "good_partition img bs" by (simp add: good_partition_def valid_partition_def)
  then have g: "good_partition img bs'" using spawn_good[OF assms(1)] h by blast
  show "valid_partition img bs'" using good_valid[OF g] .
  show "\<forall>b \<in> set bs'. normalized b" using g by (simp add: good_partition_def)
qed

theorem boxize_partition_witness:
  "(2::int) \<le> 2 \<and> 1 \<le> width (blank 6 1) \<and> 1 \<le> height (blank 6 1) \<and>
   boxize (blank 6 1) zeros 1 2 1
     = Inr ([\<lparr>Top = 0, Bottom = 0, Left = 0, Right = 2\<rparr>, \<lparr>Top = 0, Bottom = 0, Left = 3, Right = 5\<rparr>], zeros) \<and>
   valid_partition (blank 6 1) [canvas_box (blank 6 1)] \<and>
   normalized (canvas_box (blank 6 1)) \<and>
   spawn (blank 6 1) zeros 1 2 [canvas_box (blank 6 1)]
     = Inr ([\<lparr>Top = 0, Bottom = 0, Left = 0, Right = 2\<rparr>, \<lparr>Top = 0, Bottom = 0, Left = 3, Right = 5\<rparr>], zeros) \<and>
   valid_partition (blank 6 1)
     [\<lparr>Top = 0, Bottom = 0, Left = 0, Right = 2\<rparr>, \<lparr>Top = 0, Bottom = 0, Left = 3, Right = 5\<rparr>]"
proof -
  have m: "(2::int) \<le> 2" and w: "1 \<le> width (blank 6 1)" and h: "1 \<le> height (blank 6 1)"
    by (simp_all add: blank_def)
  have e: "boxize (blank 6 1) zeros 1 2 1
     = Inr ([\<lparr>Top = 0, Bottom = 0, Left = 0, Right = 2\<rparr>, \<lparr>Top = 0, Bottom = 0, Left = 3, Right = 5\<rparr>], zeros)"
    by (simp add: eval_defs)
  have s: "spawn (blank 6 1) zeros 1 2 [canvas_box (blank 6 1)]
     = Inr ([\<lparr>Top = 0, Bottom = 0, Left = 0, Right = 2\<rparr>, \<lparr>Top = 0, Bottom = 0, Left = 3, Right = 5\<rparr>], zeros)"
    by (simp add: eval_defs)
  have g: "good_partition (blank 6 1) [canvas_box (blank 6 1)]" using canvas_good[OF w h] .
  have v: "valid_partition (blank 6 1) [canvas_box (blank 6 1)]" using good_valid[OF g] .
  have n: "\<forall>b \<in> set [canvas_box (blank 6 1)]. normalized b" using g by (simp add: good_partition_def)
  have n': "normalized (canvas_box (blank 6 1))" using n by simp
  show ?thesis
    using boxize_partition[OF m w h, of zeros 1 1 _ zeros "[canvas_box (blank 6 1)]"] e s v n n' m w h
    by blast
qed

section \<open>The border renderer\<close>

lemma set_comp2: "set [f x m. x \<leftarrow> xs, m \<leftarrow> ms] = {f x m | x m. x \<in> set xs \<and> m \<in> set ms}"
  by auto

lemma set_rows_up:
  "set [(x, b + m). x \<leftarrow> [l..r], m \<leftarrow> [0..k]] = {l..r} \<times> {b..b + k}"
proof -
  have "\<exists>m. y = b + m \<and> 0 \<le> m \<and> m \<le> k" if "b \<le> y" "y \<le> b + k" for y
    using that by presburger
  then show ?thesis unfolding set_comp2 by auto
qed

lemma set_rows_down:
  "set [(x, t - m). x \<leftarrow> [l..r], m \<leftarrow> [0..k]] = {l..r} \<times> {t - k..t}"
proof -
  have "\<exists>m. y = t - m \<and> 0 \<le> m \<and> m \<le> k" if "t - k \<le> y" "y \<le> t" for y
    using that by presburger
  then show ?thesis unfolding set_comp2 by auto
qed

lemma set_cols_up:
  "set [(l + m, y). y \<leftarrow> [b..t], m \<leftarrow> [0..k]] = {l..l + k} \<times> {b..t}"
proof -
  have "\<exists>m. x = l + m \<and> 0 \<le> m \<and> m \<le> k" if "l \<le> x" "x \<le> l + k" for x
    using that by presburger
  then show ?thesis unfolding set_comp2 by auto
qed

lemma set_cols_down:
  "set [(r - m, y). y \<leftarrow> [b..t], m \<leftarrow> [0..k]] = {r - k..r} \<times> {b..t}"
proof -
  have "\<exists>m. x = r - m \<and> 0 \<le> m \<and> m \<le> k" if "r - k \<le> x" "x \<le> r" for x
    using that by presburger
  then show ?thesis unfolding set_comp2 by auto
qed

lemma set_borders:
  "0 < margin \<Longrightarrow> set (borders img margin box) =
     (if Bottom box > 0 then bottom_strip margin box else {}) \<union>
     (if Top box < height img - 1 then top_strip margin box else {}) \<union>
     (if Left box > 0 then left_strip margin box else {}) \<union>
     (if Right box < width img - 1 then right_strip margin box else {})"
  unfolding borders_def bottom_strip_def top_strip_def left_strip_def right_strip_def
  by (simp only: if_True set_append set_rows_up set_rows_down set_cols_up set_cols_down
        if_distrib[of set] list.set Un_assoc)

lemma borders_no_margin: "margin \<le> 0 \<Longrightarrow> borders img margin box = []"
  by (simp add: borders_def)

lemma putpixel_effect:
  "putpixel img xy c = Inr img' \<Longrightarrow>
     width img' = width img \<and> height img' = height img \<and>
     pix img' = (pix img)(wrap_xy img xy := c)"
  by (auto simp: putpixel_def split: if_splits)

lemma wrap_xy_cong: "width a = width b \<Longrightarrow> height a = height b \<Longrightarrow> wrap_xy a = wrap_xy b"
  by (auto simp: wrap_xy_def fun_eq_iff)

lemma put_all_effect:
  "put_all img xys c = Inr img' \<Longrightarrow>
     width img' = width img \<and> height img' = height img \<and>
     (\<forall>p. pix img' p = (if p \<in> wrap_xy img ` set xys then c else pix img p))"
proof (induction xys arbitrary: img)
  case Nil
  then show ?case by simp
next
  case (Cons xy xys)
  from Cons.prems obtain img1 where
    p: "putpixel img xy c = Inr img1" and r: "put_all img1 xys c = Inr img'"
    by (auto split: sum.splits)
  note e = putpixel_effect[OF p]
  have w: "wrap_xy img1 = wrap_xy img" using e by (intro wrap_xy_cong) auto
  from Cons.IH[OF r] e w show ?case by auto
qed

lemma borderize_loop_effect:
  "borderize_loop img0 img margin boxes = Inr img' \<Longrightarrow>
   width img = width img0 \<Longrightarrow> height img = height img0 \<Longrightarrow>
     width img' = width img0 \<and> height img' = height img0 \<and>
     (\<forall>p. pix img' p =
        (if p \<in> wrap_xy img0 ` (\<Union>b \<in> set boxes. set (borders img0 margin b)) then (0, 0, 0)
         else pix img p))"
proof (induction boxes arbitrary: img)
  case Nil
  then show ?case by simp
next
  case (Cons b bs)
  from Cons.prems(1) obtain img1 where
    p: "put_all img (borders img0 margin b) (0, 0, 0) = Inr img1" and
    r: "borderize_loop img0 img1 margin bs = Inr img'"
    by (auto split: sum.splits)
  note e = put_all_effect[OF p]
  have w: "wrap_xy img = wrap_xy img0" using Cons.prems(2,3) by (intro wrap_xy_cong) auto
  have d: "width img1 = width img0" "height img1 = height img0" using e Cons.prems(2,3) by auto
  from Cons.IH[OF r d] e w show ?case by auto
qed

lemma borderize_effect:
  "borderize img margin boxes = Inr img' \<Longrightarrow>
     width img' = width img \<and> height img' = height img \<and>
     (\<forall>p. pix img' p =
        (if p \<in> wrap_xy img ` (\<Union>b \<in> set boxes. set (borders img margin b)) then (0, 0, 0)
         else pix img p))"
  unfolding borderize_def using borderize_loop_effect[of img img margin boxes img'] by simp

lemma borderize_loop_no_margin:
  "margin \<le> 0 \<Longrightarrow> borderize_loop img0 img margin boxes = Inr img"
  by (induction boxes) (simp_all add: borders_no_margin)


lemma blank_sel: "width (blank w h) = w" "height (blank w h) = h" "pix (blank w h) p = (255, 255, 255)"
  by (simp_all add: blank_def)



subsection \<open>When the renderer returns\<close>

lemma inside_cong: "width a = width b \<Longrightarrow> height a = height b \<Longrightarrow> inside a = inside b"
  by (auto simp: inside_def fun_eq_iff)

lemma putpixel_size:
  "putpixel img xy c = Inr img' \<Longrightarrow> width img' = width img \<and> height img' = height img"
  by (auto simp: putpixel_def split: if_splits)

lemma put_all_returns:
  "\<forall>p \<in> set xys. inside img (wrap_xy img p) \<Longrightarrow> \<exists>img'. put_all img xys c = Inr img'"
proof (induction xys arbitrary: img)
  case Nil
  then show ?case by simp
next
  case (Cons xy xys)
  have i: "inside img (wrap_xy img xy)" using Cons.prems by simp
  then obtain img1 where p: "putpixel img xy c = Inr img1" by (simp add: putpixel_def)
  note s = putpixel_size[OF p]
  have "inside img1 = inside img" "wrap_xy img1 = wrap_xy img"
    using s by (auto intro: inside_cong wrap_xy_cong)
  then have "\<forall>p \<in> set xys. inside img1 (wrap_xy img1 p)" using Cons.prems by simp
  from Cons.IH[OF this] show ?case using p by simp
qed

lemma put_all_raises:
  "\<exists>p \<in> set xys. \<not> inside img (wrap_xy img p) \<Longrightarrow> put_all img xys c = Inl IndexError"
proof (induction xys arbitrary: img)
  case Nil
  then show ?case by simp
next
  case (Cons xy xys)
  show ?case
  proof (cases "inside img (wrap_xy img xy)")
    case False
    then show ?thesis by (simp add: putpixel_def)
  next
    case True
    then obtain img1 where p: "putpixel img xy c = Inr img1" by (simp add: putpixel_def)
    note s = putpixel_size[OF p]
    have "inside img1 = inside img" "wrap_xy img1 = wrap_xy img"
      using s by (auto intro: inside_cong wrap_xy_cong)
    then have "\<exists>p \<in> set xys. \<not> inside img1 (wrap_xy img1 p)" using Cons.prems True by auto
    from Cons.IH[OF this] show ?thesis using p by simp
  qed
qed

lemma put_all_size:
  "put_all img xys c = Inr img' \<Longrightarrow> width img' = width img \<and> height img' = height img"
  using put_all_effect[of img xys c img'] by simp

lemma borderize_loop_returns:
  "width img = width img0 \<Longrightarrow> height img = height img0 \<Longrightarrow>
   \<forall>b \<in> set boxes. \<forall>p \<in> set (borders img0 margin b). inside img0 (wrap_xy img0 p) \<Longrightarrow>
   \<exists>img'. borderize_loop img0 img margin boxes = Inr img'"
proof (induction boxes arbitrary: img)
  case Nil
  then show ?case by simp
next
  case (Cons b bs)
  have c: "inside img = inside img0" "wrap_xy img = wrap_xy img0"
    using Cons.prems(1,2) by (auto intro: inside_cong wrap_xy_cong)
  have "\<forall>p \<in> set (borders img0 margin b). inside img (wrap_xy img p)"
    using Cons.prems(3) c by simp
  from put_all_returns[OF this] obtain img1 where
    p: "put_all img (borders img0 margin b) (0, 0, 0) = Inr img1" by blast
  have s: "width img1 = width img0" "height img1 = height img0"
    using put_all_size[OF p] Cons.prems(1,2) by auto
  have "\<forall>b \<in> set bs. \<forall>p \<in> set (borders img0 margin b). inside img0 (wrap_xy img0 p)"
    using Cons.prems(3) by simp
  from Cons.IH[OF s this] show ?case using p by simp
qed

lemma borderize_loop_raises:
  "width img = width img0 \<Longrightarrow> height img = height img0 \<Longrightarrow>
   \<exists>b \<in> set boxes. \<exists>p \<in> set (borders img0 margin b). \<not> inside img0 (wrap_xy img0 p) \<Longrightarrow>
   borderize_loop img0 img margin boxes = Inl IndexError"
proof (induction boxes arbitrary: img)
  case Nil
  then show ?case by simp
next
  case (Cons b bs)
  have c: "inside img = inside img0" "wrap_xy img = wrap_xy img0"
    using Cons.prems(1,2) by (auto intro: inside_cong wrap_xy_cong)
  show ?case
  proof (cases "\<exists>p \<in> set (borders img0 margin b). \<not> inside img0 (wrap_xy img0 p)")
    case True
    then have "\<exists>p \<in> set (borders img0 margin b). \<not> inside img (wrap_xy img p)" using c by simp
    from put_all_raises[OF this] show ?thesis by simp
  next
    case False
    then have "\<forall>p \<in> set (borders img0 margin b). inside img (wrap_xy img p)" using c by simp
    from put_all_returns[OF this] obtain img1 where
      p: "put_all img (borders img0 margin b) (0, 0, 0) = Inr img1" by blast
    have s: "width img1 = width img0" "height img1 = height img0"
      using put_all_size[OF p] Cons.prems(1,2) by auto
    have "\<exists>b \<in> set bs. \<exists>p \<in> set (borders img0 margin b). \<not> inside img0 (wrap_xy img0 p)"
      using Cons.prems(3) False by auto
    from Cons.IH[OF s this] show ?thesis using p by simp
  qed
qed

lemma canvas_inside: "p \<in> canvas img \<Longrightarrow> wrap_xy img p = p \<and> inside img p"
  by (cases p) (auto simp: canvas_def wrap_xy_def inside_def)

lemma borders_within:
  assumes "normalized box" "bounds_within img box" "margin < box_width box" "margin < box_height box"
  shows "set (borders img margin box) \<subseteq> canvas img"
proof (cases "0 < margin")
  case False
  then show ?thesis by (simp add: borders_def)
next
  case True
  have "bottom_strip margin box \<subseteq> canvas img" "top_strip margin box \<subseteq> canvas img"
    "left_strip margin box \<subseteq> canvas img" "right_strip margin box \<subseteq> canvas img"
    using assms True
    by (auto simp: bottom_strip_def top_strip_def left_strip_def right_strip_def canvas_def
          normalized_def bounds_within_def box_width_def box_height_def)
  then show ?thesis unfolding set_borders[OF True] by auto
qed

text \<open>
  Claim C4, as stated, fails. With \<^verbatim>\<open>marginWidth = 0\<close> the generator \<^verbatim>\<open>borders\<close> yields nothing
  (its body is guarded by \<^verbatim>\<open>margin > 0\<close>): on a 2 by 1 image split into its two pixels, the side
  between them is internal and the border renderer returns the image unchanged. With
  \<^verbatim>\<open>marginWidth = 1\<close> on the same partition the first box paints its own pixel and, through the
  coordinate -1, the other one; the second box then reaches the coordinate 2 and
  \<^verbatim>\<open>putpixel\<close> raises \<^verbatim>\<open>IndexError\<close>.
\<close>

theorem borderize_margin0_counterexample:
  "(0::int) \<le> 0 \<and>
   Right \<lparr>Top = 0, Bottom = 0, Left = 0, Right = 0\<rparr> < width (blank 2 1) - 1 \<and>
   0 < Left \<lparr>Top = 0, Bottom = 0, Left = 1, Right = 1\<rparr> \<and>
   borders (blank 2 1) 0 \<lparr>Top = 0, Bottom = 0, Left = 0, Right = 0\<rparr> = [] \<and>
   borders (blank 2 1) 0 \<lparr>Top = 0, Bottom = 0, Left = 1, Right = 1\<rparr> = [] \<and>
   borderize (blank 2 1) 0
     [\<lparr>Top = 0, Bottom = 0, Left = 0, Right = 0\<rparr>, \<lparr>Top = 0, Bottom = 0, Left = 1, Right = 1\<rparr>]
     = Inr (blank 2 1) \<and>
   borders (blank 2 1) 1 \<lparr>Top = 0, Bottom = 0, Left = 0, Right = 0\<rparr> = [(0, 0), (- 1, 0)] \<and>
   borders (blank 2 1) 1 \<lparr>Top = 0, Bottom = 0, Left = 1, Right = 1\<rparr> = [(1, 0), (2, 0)] \<and>
   borderize (blank 2 1) 1
     [\<lparr>Top = 0, Bottom = 0, Left = 0, Right = 0\<rparr>, \<lparr>Top = 0, Bottom = 0, Left = 1, Right = 1\<rparr>]
     = Inl IndexError"
  by (simp add: borders_def borderize_def blank_def upto.simps putpixel_def inside_def wrap_xy_def)

text \<open>
  Claim C4, amended. For every \<^verbatim>\<open>marginWidth > 0\<close> the coordinates that the renderer asks to
  paint for a box are exactly the \<^verbatim>\<open>marginWidth + 1\<close> rows or columns inward from each of its
  sides that is not on the canvas boundary; for \<^verbatim>\<open>marginWidth <= 0\<close> it paints nothing and returns
  the image unchanged. A normalized box inside the canvas that is more than \<^verbatim>\<open>marginWidth\<close>
  pixels wide and high keeps all these coordinates inside the canvas. When the coordinates of
  every box are inside the canvas the renderer returns, and in the result exactly these
  coordinates are black and every other pixel is unchanged. More generally the renderer returns
  if and only if \<^verbatim>\<open>putpixel\<close> accepts every coordinate, a negative one counted once from the far
  edge; it then blackens the coordinates so counted, and otherwise it raises \<^verbatim>\<open>IndexError\<close>.
\<close>

theorem borders_paint_internal_sides:
  "(0 < margin \<longrightarrow>
      set (borders img margin box) =
        (if Bottom box > 0 then bottom_strip margin box else {}) \<union>
        (if Top box < height img - 1 then top_strip margin box else {}) \<union>
        (if Left box > 0 then left_strip margin box else {}) \<union>
        (if Right box < width img - 1 then right_strip margin box else {})) \<and>
   (margin \<le> 0 \<longrightarrow> borders img margin box = [] \<and> borderize img margin boxes = Inr img) \<and>
   (normalized box \<and> bounds_within img box \<and> margin < box_width box \<and> margin < box_height box \<longrightarrow>
      set (borders img margin box) \<subseteq> canvas img) \<and>
   ((\<forall>b \<in> set boxes. set (borders img margin b) \<subseteq> canvas img) \<longrightarrow>
      (\<exists>img'. borderize img margin boxes = Inr img' \<and>
         width img' = width img \<and> height img' = height img \<and>
         (\<forall>p. pix img' p =
            (if p \<in> (\<Union>b \<in> set boxes. set (borders img margin b)) then (0, 0, 0)
             else pix img p)))) \<and>
   ((\<forall>b \<in> set boxes. \<forall>p \<in> set (borders img margin b). inside img (wrap_xy img p)) \<longrightarrow>
      (\<exists>img'. borderize img margin boxes = Inr img' \<and>
         width img' = width img \<and> height img' = height img \<and>
         (\<forall>p. pix img' p =
            (if p \<in> wrap_xy img ` (\<Union>b \<in> set boxes. set (borders img margin b)) then (0, 0, 0)
             else pix img p)))) \<and>
   ((\<exists>b \<in> set boxes. \<exists>p \<in> set (borders img margin b). \<not> inside img (wrap_xy img p)) \<longrightarrow>
      borderize img margin boxes = Inl IndexError)"
proof -
  let ?S = "\<Union>b \<in> set boxes. set (borders img margin b)"
  have 1: "0 < margin \<longrightarrow>
      set (borders img margin box) =
        (if Bottom box > 0 then bottom_strip margin box else {}) \<union>
        (if Top box < height img - 1 then top_strip margin box else {}) \<union>
        (if Left box > 0 then left_strip margin box else {}) \<union>
        (if Right box < width img - 1 then right_strip margin box else {})"
    using set_borders[of margin img box] by blast
  have 2: "margin \<le> 0 \<longrightarrow> borders img margin box = [] \<and> borderize img margin boxes = Inr img"
    using borders_no_margin[of margin img box] borderize_loop_no_margin[of margin img img boxes]
    by (simp add: borderize_def)
  have 3: "normalized box \<and> bounds_within img box \<and> margin < box_width box \<and> margin < box_height box \<longrightarrow>
      set (borders img margin box) \<subseteq> canvas img"
    using borders_within[of box img margin] by blast
  have 5: "\<exists>img'. borderize img margin boxes = Inr img' \<and>
         width img' = width img \<and> height img' = height img \<and>
         (\<forall>p. pix img' p = (if p \<in> wrap_xy img ` ?S then (0, 0, 0) else pix img p))"
    if h: "\<forall>b \<in> set boxes. \<forall>p \<in> set (borders img margin b). inside img (wrap_xy img p)"
  proof -
    from borderize_loop_returns[OF refl refl h] obtain img' where
      r: "borderize img margin boxes = Inr img'" unfolding borderize_def by blast
    from borderize_effect[OF r] r show ?thesis by blast
  qed
  have 4: "\<exists>img'. borderize img margin boxes = Inr img' \<and>
         width img' = width img \<and> height img' = height img \<and>
         (\<forall>p. pix img' p = (if p \<in> ?S then (0, 0, 0) else pix img p))"
    if h: "\<forall>b \<in> set boxes. set (borders img margin b) \<subseteq> canvas img"
  proof -
    have c: "\<forall>p \<in> ?S. wrap_xy img p = p \<and> inside img p" using h canvas_inside by blast
    then have "\<forall>b \<in> set boxes. \<forall>p \<in> set (borders img margin b). inside img (wrap_xy img p)"
      by auto
    from 5[OF this] obtain img' where
      r: "borderize img margin boxes = Inr img'" "width img' = width img" "height img' = height img"
        "\<forall>p. pix img' p = (if p \<in> wrap_xy img ` ?S then (0, 0, 0) else pix img p)" by blast
    have "wrap_xy img ` ?S = ?S" using c by force
    then show ?thesis using r by auto
  qed
  have 6: "(\<exists>b \<in> set boxes. \<exists>p \<in> set (borders img margin b). \<not> inside img (wrap_xy img p)) \<longrightarrow>
      borderize img margin boxes = Inl IndexError"
    using borderize_loop_raises[of img img boxes margin] by (simp add: borderize_def)
  show ?thesis using 1 2 3 4 5 6 by blast
qed

text \<open>
  The amended statement on a 6 by 6 image cut into a left and a right half with margin 1 (the
  columns 1 to 4 are painted), with margin 0, and on the 2 by 1 image of the counterexample.
\<close>

theorem borders_paint_internal_sides_witness:
  "(0::int) < 1 \<and> (0::int) \<le> 0 \<and>
   set (borders (blank 6 6) 1 \<lparr>Top = 5, Bottom = 0, Left = 0, Right = 2\<rparr>)
     = right_strip 1 \<lparr>Top = 5, Bottom = 0, Left = 0, Right = 2\<rparr> \<and>
   borderize (blank 6 6) 0 [\<lparr>Top = 5, Bottom = 0, Left = 0, Right = 2\<rparr>] = Inr (blank 6 6) \<and>
   normalized \<lparr>Top = 5, Bottom = 0, Left = 0, Right = 2\<rparr> \<and>
   bounds_within (blank 6 6) \<lparr>Top = 5, Bottom = 0, Left = 0, Right = 2\<rparr> \<and>
   1 < box_width \<lparr>Top = 5, Bottom = 0, Left = 0, Right = 2\<rparr> \<and>
   1 < box_height \<lparr>Top = 5, Bottom = 0, Left = 0, Right = 2\<rparr> \<and>
   set (borders (blank 6 6) 1 \<lparr>Top = 5, Bottom = 0, Left = 0, Right = 2\<rparr>) \<subseteq> canvas (blank 6 6) \<and>
   set (borders (blank 6 6) 1 \<lparr>Top = 5, Bottom = 0, Left = 3, Right = 5\<rparr>) \<subseteq> canvas (blank 6 6) \<and>
   (\<exists>img'. borderize (blank 6 6) 1
        [\<lparr>Top = 5, Bottom = 0, Left = 0, Right = 2\<rparr>, \<lparr>Top = 5, Bottom = 0, Left = 3, Right = 5\<rparr>]
        = Inr img' \<and>
      pix img' (0, 0) = (255, 255, 255) \<and> pix img' (1, 3) = (0, 0, 0) \<and>
      pix img' (2, 5) = (0, 0, 0) \<and> pix img' (3, 0) = (0, 0, 0) \<and> pix img' (4, 2) = (0, 0, 0) \<and>
      pix img' (5, 5) = (255, 255, 255)) \<and>
   inside (blank 2 1) (wrap_xy (blank 2 1) (0, 0)) \<and>
   inside (blank 2 1) (wrap_xy (blank 2 1) (- 1, 0)) \<and>
   (\<exists>img'. borderize (blank 2 1) 1 [\<lparr>Top = 0, Bottom = 0, Left = 0, Right = 0\<rparr>] = Inr img' \<and>
      pix img' (0, 0) = (0, 0, 0) \<and> pix img' (1, 0) = (0, 0, 0)) \<and>
   (2, 0) \<in> set (borders (blank 2 1) 1 \<lparr>Top = 0, Bottom = 0, Left = 1, Right = 1\<rparr>) \<and>
   \<not> inside (blank 2 1) (wrap_xy (blank 2 1) (2, 0)) \<and>
   borderize (blank 2 1) 1
     [\<lparr>Top = 0, Bottom = 0, Left = 0, Right = 0\<rparr>, \<lparr>Top = 0, Bottom = 0, Left = 1, Right = 1\<rparr>]
     = Inl IndexError"
proof -
  let ?a = "\<lparr>Top = 5, Bottom = 0, Left = 0, Right = 2\<rparr>"
  let ?b = "\<lparr>Top = 5, Bottom = 0, Left = 3, Right = 5\<rparr>"
  let ?c = "\<lparr>Top = 0, Bottom = 0, Left = 0, Right = 0\<rparr>"
  let ?d = "\<lparr>Top = 0, Bottom = 0, Left = 1, Right = 1\<rparr>"
  note t = borders_paint_internal_sides
  have sa: "set (borders (blank 6 6) 1 ?a) = right_strip 1 ?a"
    using t[of 1 "blank 6 6" ?a "[?a]"] by (simp add: blank_sel)
  have sb: "set (borders (blank 6 6) 1 ?b) = left_strip 1 ?b"
    using t[of 1 "blank 6 6" ?b "[?b]"] by (simp add: blank_sel)
  have z: "borderize (blank 6 6) 0 [?a] = Inr (blank 6 6)"
    using t[of 0 "blank 6 6" ?a "[?a]"] by simp
  have ha: "normalized ?a \<and> bounds_within (blank 6 6) ?a \<and> 1 < box_width ?a \<and> 1 < box_height ?a"
    by (simp add: normalized_def bounds_within_def box_width_def box_height_def blank_sel)
  have hb: "normalized ?b \<and> bounds_within (blank 6 6) ?b \<and> 1 < box_width ?b \<and> 1 < box_height ?b"
    by (simp add: normalized_def bounds_within_def box_width_def box_height_def blank_sel)
  have wa: "set (borders (blank 6 6) 1 ?a) \<subseteq> canvas (blank 6 6)"
    using t[of 1 "blank 6 6" ?a "[?a]"] ha by blast
  have wb: "set (borders (blank 6 6) 1 ?b) \<subseteq> canvas (blank 6 6)"
    using t[of 1 "blank 6 6" ?b "[?b]"] hb by blast
  have "\<forall>b \<in> set [?a, ?b]. set (borders (blank 6 6) 1 b) \<subseteq> canvas (blank 6 6)"
    using wa wb by simp
  then obtain img' where
    r: "borderize (blank 6 6) 1 [?a, ?b] = Inr img'" and
    px: "\<forall>p. pix img' p =
          (if p \<in> (\<Union>b \<in> set [?a, ?b]. set (borders (blank 6 6) 1 b)) then (0, 0, 0)
           else pix (blank 6 6) p)"
    using t[of 1 "blank 6 6" ?a "[?a, ?b]"] by blast
  have u: "(\<Union>b \<in> set [?a, ?b]. set (borders (blank 6 6) 1 b)) = {1..4} \<times> {0..5}"
    by (auto simp: sa sb right_strip_def left_strip_def)
  have p6: "pix img' (0, 0) = (255, 255, 255) \<and> pix img' (1, 3) = (0, 0, 0) \<and>
      pix img' (2, 5) = (0, 0, 0) \<and> pix img' (3, 0) = (0, 0, 0) \<and> pix img' (4, 2) = (0, 0, 0) \<and>
      pix img' (5, 5) = (255, 255, 255)"
    using px unfolding u by (simp add: blank_sel)
  have bc: "borders (blank 2 1) 1 ?c = [(0, 0), (- 1, 0)]"
    by (simp add: borders_def blank_def upto.simps)
  have bd: "borders (blank 2 1) 1 ?d = [(1, 0), (2, 0)]"
    by (simp add: borders_def blank_def upto.simps)
  have ic: "inside (blank 2 1) (wrap_xy (blank 2 1) (0, 0)) \<and>
      inside (blank 2 1) (wrap_xy (blank 2 1) (- 1, 0))"
    by (simp add: inside_def wrap_xy_def blank_sel)
  then have "\<forall>b \<in> set [?c]. \<forall>p \<in> set (borders (blank 2 1) 1 b).
      inside (blank 2 1) (wrap_xy (blank 2 1) p)" by (simp add: bc)
  then obtain img2 where
    r2: "borderize (blank 2 1) 1 [?c] = Inr img2" and
    px2: "\<forall>p. pix img2 p =
          (if p \<in> wrap_xy (blank 2 1) ` (\<Union>b \<in> set [?c]. set (borders (blank 2 1) 1 b))
           then (0, 0, 0) else pix (blank 2 1) p)"
    using t[of 1 "blank 2 1" ?c "[?c]"] by blast
  have u2: "wrap_xy (blank 2 1) ` (\<Union>b \<in> set [?c]. set (borders (blank 2 1) 1 b)) = {(0, 0), (1, 0)}"
    by (simp add: bc wrap_xy_def blank_sel)
  have p2: "pix img2 (0, 0) = (0, 0, 0) \<and> pix img2 (1, 0) = (0, 0, 0)"
    using px2 unfolding u2 by simp
  have m: "(2, 0) \<in> set (borders (blank 2 1) 1 ?d)" by (simp add: bd)
  have n: "\<not> inside (blank 2 1) (wrap_xy (blank 2 1) (2, 0))"
    by (simp add: inside_def wrap_xy_def blank_sel)
  have "\<exists>b \<in> set [?c, ?d]. \<exists>p \<in> set (borders (blank 2 1) 1 b).
      \<not> inside (blank 2 1) (wrap_xy (blank 2 1) p)" using m n by auto
  then have f: "borderize (blank 2 1) 1 [?c, ?d] = Inl IndexError"
    using t[of 1 "blank 2 1" ?c "[?c, ?d]"] by blast
  have o: "(0::int) < 1 \<and> (0::int) \<le> 0" by simp
  show ?thesis using o sa z ha wa wb r p6 ic r2 p2 m n f by blast
qed

section \<open>Configuration values the program does not check\<close>

lemma split_no_cuts: "cuts \<le> 0 \<Longrightarrow> split img r cuts margin box = Inr (None, r)"
  by (simp add: split_def Let_def)

lemma spawn_no_cuts:
  assumes "cuts \<le> 0"
  shows "\<exists>r'. spawn img r cuts margin [b] = Inr ([b], r')"
proof -
  have "randint r 0 0 = Inr (0, \<lambda>n. r (Suc n))" by (simp add: randint_def)
  then show ?thesis using assms by (simp add: spawn_def split_no_cuts)
qed

lemma fragment_no_cuts:
  "cuts \<le> 0 \<Longrightarrow> boxes = [b] \<Longrightarrow>
   fragment img r cuts margin depth boxes gen = Inr (bs', r') \<Longrightarrow> bs' = [b]"
proof (induction img r cuts margin depth boxes gen rule: fragment.induct)
  case (1 img r cuts margin depth boxes gen)
  show ?case
  proof (cases "gen \<ge> depth")
    case True
    then show ?thesis using "1.prems" by (simp add: fragment.simps)
  next
    case False
    from spawn_no_cuts[OF "1.prems"(1)] obtain r1 where
      sp: "spawn img r cuts margin boxes = Inr ([b], r1)" using "1.prems"(2) by blast
    have "fragment img r1 cuts margin depth [b] (gen + 1) = Inr (bs', r')"
      using "1.prems"(3) False sp by (subst (asm) fragment.simps) simp
    from "1.IH"[OF False sp refl "1.prems"(1) refl this] show ?thesis .
  qed
qed

lemma roundize_zero: "roundize v 0 = Inl ZeroDivisionError"
  by (simp add: roundize_def)

lemma contrastize_zero: "contrastize 0 color = Inl ZeroDivisionError"
  by (cases color) (simp add: contrastize_def roundize_zero)

lemma colorize_colors_zero:
  "boxes \<noteq> [] \<Longrightarrow> whitened < i + int (length boxes) \<Longrightarrow>
     \<exists>e. colorize_colors img r whitened 0 i boxes = Inl e"
proof (induction boxes arbitrary: r i)
  case Nil
  then show ?case by simp
next
  case (Cons b bs)
  show ?case
  proof (cases "average img r b")
    case (Inl e)
    then show ?thesis by simp
  next
    case (Inr res)
    obtain avg r1 where res: "res = (avg, r1)" by (cases res)
    show ?thesis
    proof (cases "i < whitened")
      case True
      then have "whitened < (i + 1) + int (length bs)" "bs \<noteq> []" using Cons.prems by auto
      from Cons.IH[OF this(2,1)] obtain e where "colorize_colors img r1 whitened 0 (i + 1) bs = Inl e"
        by blast
      then show ?thesis using Inr res True by simp
    next
      case False
      then show ?thesis using Inr res by (simp add: contrastize_zero)
    qed
  qed
qed

text \<open>
  Claim C5, as stated, fails: the program has no configuration check and no
  invalid-configuration error. With 0 generations (and 0 cuts) \<^verbatim>\<open>boxize\<close> returns the single
  canvas box without any error, and quantization accepts the negative grain -32.
\<close>

theorem no_invalid_configuration_error_counterexample:
  "(0::int) \<le> 0 \<and> boxize (blank 3 1) zeros 0 0 0 = Inr ([canvas_box (blank 3 1)], zeros) \<and>
   (- 32 :: real) \<le> 0 \<and> roundize 130 (- 32) = Inr 128"
  by (simp add: boxize_def fragment.simps roundize_def fl_eval)

text \<open>
  Claim C5, amended: the program checks none of its configuration values and has no
  invalid-configuration error. With \<^verbatim>\<open>depth <= 0\<close> the partition builder returns the single canvas
  box and consumes no random value. With \<^verbatim>\<open>cuts <= 0\<close> a split finds no candidate, a generation
  step on one box returns that box after one draw, and whenever \<^verbatim>\<open>boxize\<close> returns, it returns
  the single canvas box. The sample cap is the module constant 100, not a parameter. A grain of 0
  makes quantization raise \<^verbatim>\<open>ZeroDivisionError\<close>, so recolouring with grain 0 raises whenever at
  least one box is not whitened, before it paints any pixel; the negative grain -32 is accepted
  and quantizes 130 to 128.
\<close>

theorem no_configuration_check:
  "(depth \<le> 0 \<longrightarrow> boxize img r cuts margin depth = Inr ([canvas_box img], r)) \<and>
   (cuts \<le> 0 \<longrightarrow>
      split img r cuts margin box = Inr (None, r) \<and>
      spawn img r cuts margin [box] = Inr ([box], \<lambda>n. r (Suc n)) \<and>
      (boxize img r cuts margin depth = Inr (boxes, r') \<longrightarrow> boxes = [canvas_box img])) \<and>
   roundize v 0 = Inl ZeroDivisionError \<and>
   (bs \<noteq> [] \<and> whitened < int (length bs) \<longrightarrow>
      (\<exists>e. colorize_colors img r whitened 0 0 bs = Inl e)) \<and>
   (fl (white * real_of_int (int (length bs))) = Some p \<and> py_int p < int (length bs) \<longrightarrow>
      (\<exists>e. colorize img r white 0 bs = Inl e)) \<and>
   roundize 130 (- 32) = Inr 128 \<and>
   maxSample = 100"
proof -
  have 1: "depth \<le> 0 \<longrightarrow> boxize img r cuts margin depth = Inr ([canvas_box img], r)"
    by (simp add: boxize_def fragment.simps)
  have 2: "cuts \<le> 0 \<longrightarrow>
      split img r cuts margin box = Inr (None, r) \<and>
      spawn img r cuts margin [box] = Inr ([box], \<lambda>n. r (Suc n)) \<and>
      (boxize img r cuts margin depth = Inr (boxes, r') \<longrightarrow> boxes = [canvas_box img])"
  proof
    assume c: "cuts \<le> 0"
    have "randint r 0 0 = Inr (0, \<lambda>n. r (Suc n))" by (simp add: randint_def)
    then have "spawn img r cuts margin [box] = Inr ([box], \<lambda>n. r (Suc n))"
      using c by (simp add: spawn_def split_no_cuts)
    moreover have "boxize img r cuts margin depth = Inr (boxes, r') \<longrightarrow> boxes = [canvas_box img]"
      using fragment_no_cuts[OF c refl, of img r margin depth "canvas_box img" 0 boxes r']
      by (simp add: boxize_def)
    ultimately show "split img r cuts margin box = Inr (None, r) \<and>
      spawn img r cuts margin [box] = Inr ([box], \<lambda>n. r (Suc n)) \<and>
      (boxize img r cuts margin depth = Inr (boxes, r') \<longrightarrow> boxes = [canvas_box img])"
      using split_no_cuts[OF c] by blast
  qed
  have 4: "bs \<noteq> [] \<and> whitened < int (length bs) \<longrightarrow>
      (\<exists>e. colorize_colors img r whitened 0 0 bs = Inl e)"
    using colorize_colors_zero[of bs whitened 0 img r] by simp
  have 5: "fl (white * real_of_int (int (length bs))) = Some p \<and> py_int p < int (length bs) \<longrightarrow>
      (\<exists>e. colorize img r white 0 bs = Inl e)"
  proof
    assume h: "fl (white * real_of_int (int (length bs))) = Some p \<and> py_int p < int (length bs)"
    then have "bs \<noteq> []" by (cases bs) (auto simp: py_int_def fl_def)
    then obtain e where "colorize_colors img r (py_int p) 0 0 bs = Inl e"
      using colorize_colors_zero[of bs "py_int p" 0 img r] h by auto
    then have "colorize img r white 0 bs = Inl e" using h by (simp add: colorize_def Let_def)
    then show "\<exists>e. colorize img r white 0 bs = Inl e" by blast
  qed
  have 6: "roundize 130 (- 32) = Inr 128" by (simp add: roundize_def fl_eval)
  show ?thesis using 1 2 4 5 6 roundize_zero by (simp add: maxSample_def)
qed

text \<open>The amended statement at 0 generations, at 0 cuts, and at grain 0 on a one-pixel image.\<close>

theorem no_configuration_check_witness:
  "(0::int) \<le> 0 \<and>
   boxize (blank 3 1) zeros 1 0 0 = Inr ([canvas_box (blank 3 1)], zeros) \<and>
   split (blank 3 1) zeros 0 0 (canvas_box (blank 3 1)) = Inr (None, zeros) \<and>
   spawn (blank 3 1) zeros 0 0 [canvas_box (blank 3 1)] = Inr ([canvas_box (blank 3 1)], \<lambda>n. zeros (Suc n)) \<and>
   boxize (blank 3 1) zeros 0 0 2 = Inr ([canvas_box (blank 3 1)], zeros) \<and>
   [canvas_box (gray 1 1)] \<noteq> [] \<and> (0::int) < int (length [canvas_box (gray 1 1)]) \<and>
   (\<exists>e. colorize_colors (gray 1 1) zeros 0 0 0 [canvas_box (gray 1 1)] = Inl e) \<and>
   fl (0 * real_of_int (int (length [canvas_box (gray 1 1)]))) = Some 0 \<and>
   py_int 0 < int (length [canvas_box (gray 1 1)]) \<and>
   (\<exists>e. colorize (gray 1 1) zeros 0 0 [canvas_box (gray 1 1)] = Inl e)"
proof -
  have a: "(0::int) \<le> 0" by simp
  have b: "boxize (blank 3 1) zeros 0 0 2 = Inr ([canvas_box (blank 3 1)], zeros)"
    by (simp add: eval_defs)
  have c: "[canvas_box (gray 1 1)] \<noteq> [] \<and> (0::int) < int (length [canvas_box (gray 1 1)])" by simp
  have d: "fl (0 * real_of_int (int (length [canvas_box (gray 1 1)]))) = Some 0 \<and>
     py_int 0 < int (length [canvas_box (gray 1 1)])" by (simp add: fl_def py_int_def)
  show ?thesis
    using no_configuration_check[of 0 "blank 3 1" zeros 1 0 "canvas_box (blank 3 1)"
        "[canvas_box (blank 3 1)]" zeros 130 "[canvas_box (gray 1 1)]" 0 0 0]
      no_configuration_check[of 2 "blank 3 1" zeros 0 0 "canvas_box (blank 3 1)"
        "[canvas_box (blank 3 1)]" zeros 130 "[canvas_box (gray 1 1)]" 0 0 0]
      no_configuration_check[of 2 "gray 1 1" zeros 0 0 "canvas_box (blank 3 1)"
        "[canvas_box (blank 3 1)]" zeros 130 "[canvas_box (gray 1 1)]" 0 0 0]
      a b c d
    by simp
qed

section \<open>The recolorer\<close>

lemma gray_sel: "width (gray w h) = w" "height (gray w h) = h" "pix (gray w h) p = (130, 130, 130)"
  by (simp_all add: gray_def)

lemma set_box_pixels: "set (box_pixels box) = {Left box..Right box} \<times> {Bottom box..Top box}"
  by (auto simp: box_pixels_def)

lemma wrap_xy_nonneg: "0 \<le> fst p \<Longrightarrow> 0 \<le> snd p \<Longrightarrow> wrap_xy img p = p"
  by (cases p) (simp add: wrap_xy_def)

lemma wrap_box_pixels:
  assumes "normalized b" "0 \<le> Left b" "0 \<le> Bottom b"
  shows "wrap_xy img ` set (box_pixels b) = bbox b"
proof -
  have "wrap_xy img p = p" if "p \<in> set (box_pixels b)" for p
    using that assms by (intro wrap_xy_nonneg) (auto simp: set_box_pixels)
  then have "wrap_xy img ` set (box_pixels b) = set (box_pixels b)" by force
  then show ?thesis by (simp add: set_box_pixels bbox_normalized[OF assms(1)])
qed

lemma paint_effect:
  "paint img xys c = Inr img' \<Longrightarrow>
     width img' = width img \<and> height img' = height img \<and>
     (\<forall>p. pix img' p = (if p \<in> wrap_xy img ` set xys then c else pix img p))"
proof (induction xys arbitrary: img)
  case Nil
  then show ?case by simp
next
  case (Cons xy xys)
  from Cons.prems obtain img1 where
    p: "putpixel img xy c = Inr img1" and r: "paint img1 xys c = Inr img'"
    by (auto split: sum.splits)
  note e = putpixel_effect[OF p]
  have w: "wrap_xy img1 = wrap_xy img" using e by (intro wrap_xy_cong) auto
  from Cons.IH[OF r] e w show ?case by auto
qed

lemma paint_boxes_effect:
  "paint_boxes img cs = Inr img' \<Longrightarrow>
   \<forall>bc \<in> set cs. normalized (fst bc) \<and> 0 \<le> Left (fst bc) \<and> 0 \<le> Bottom (fst bc) \<Longrightarrow>
     width img' = width img \<and> height img' = height img \<and>
     (\<forall>p. p \<notin> (\<Union>bc \<in> set cs. bbox (fst bc)) \<longrightarrow> pix img' p = pix img p) \<and>
     (pairwise_disjoint (map fst cs) \<longrightarrow>
        (\<forall>i < length cs. \<forall>p \<in> bbox (fst (cs ! i)). pix img' p = snd (cs ! i)))"
proof (induction cs arbitrary: img)
  case Nil
  then show ?case by simp
next
  case (Cons bc cs)
  obtain b c where bc: "bc = (b, c)" by (cases bc)
  from Cons.prems(1) bc obtain img1 where
    p: "paint img (box_pixels b) c = Inr img1" and r: "paint_boxes img1 cs = Inr img'"
    by (auto split: sum.splits)
  have nb: "normalized b" "0 \<le> Left b" "0 \<le> Bottom b" using Cons.prems(2) bc by auto
  have rest: "\<forall>bc \<in> set cs. normalized (fst bc) \<and> 0 \<le> Left (fst bc) \<and> 0 \<le> Bottom (fst bc)"
    using Cons.prems(2) by auto
  have e1: "width img1 = width img" "height img1 = height img"
    "\<And>p. pix img1 p = (if p \<in> bbox b then c else pix img p)"
    using paint_effect[OF p] wrap_box_pixels[OF nb, of img] by auto
  note IH = Cons.IH[OF r rest]
  have dims: "width img' = width img \<and> height img' = height img" using IH e1 by simp
  have unt: "\<forall>p. p \<notin> (\<Union>bc \<in> set (bc # cs). bbox (fst bc)) \<longrightarrow> pix img' p = pix img p"
    using IH e1 bc by auto
  have dis: "\<forall>i < length (bc # cs). \<forall>p \<in> bbox (fst ((bc # cs) ! i)). pix img' p = snd ((bc # cs) ! i)"
    if pd: "pairwise_disjoint (map fst (bc # cs))"
  proof (intro allI impI ballI)
    fix i p assume i: "i < length (bc # cs)" and pin: "p \<in> bbox (fst ((bc # cs) ! i))"
    from pd bc have d: "\<forall>x \<in> set (map fst cs). bbox b \<inter> bbox x = {}"
      and pdr: "pairwise_disjoint (map fst cs)"
      by (simp_all add: pairwise_disjoint_Cons)
    show "pix img' p = snd ((bc # cs) ! i)"
    proof (cases i)
      case 0
      then have pb: "p \<in> bbox b" using pin bc by simp
      then have "p \<notin> (\<Union>bc \<in> set cs. bbox (fst bc))" using d by auto
      then have "pix img' p = pix img1 p" using IH by blast
      then show ?thesis using e1(3) pb 0 bc by simp
    next
      case (Suc j)
      then show ?thesis using IH pdr i pin by auto
    qed
  qed
  show ?case using dims unt dis by blast
qed

lemma colorize_colors_spec:
  "colorize_colors img r k contrast i boxes = Inr (cs, r') \<Longrightarrow>
     map fst cs = boxes \<and>
     (\<forall>j < length boxes.
        (i + int j < k \<longrightarrow> snd (cs ! j) = (255, 255, 255)) \<and>
        (\<not> i + int j < k \<longrightarrow>
           (\<exists>r0 r1 avg. average img r0 (boxes ! j) = Inr (avg, r1) \<and>
              contrastize contrast avg = Inr (snd (cs ! j)))))"
proof (induction boxes arbitrary: r i cs)
  case Nil
  then show ?case by simp
next
  case (Cons b bs)
  from Cons.prems obtain avg r1 c cs' where
    av: "average img r b = Inr (avg, r1)" and
    c: "(if i < k then Inr (255, 255, 255) else contrastize contrast avg) = Inr c" and
    rest: "colorize_colors img r1 k contrast (i + 1) bs = Inr (cs', r')" and
    cs: "cs = (b, c) # cs'"
    by (auto split: sum.splits prod.splits)
  note IH = Cons.IH[OF rest]
  have m: "map fst cs = b # bs" using IH cs by simp
  have "(i + int j < k \<longrightarrow> snd (cs ! j) = (255, 255, 255)) \<and>
        (\<not> i + int j < k \<longrightarrow>
           (\<exists>r0 r1 avg. average img r0 ((b # bs) ! j) = Inr (avg, r1) \<and>
              contrastize contrast avg = Inr (snd (cs ! j))))" if j: "j < length (b # bs)" for j
  proof (cases j)
    case 0
    show ?thesis
    proof (cases "i < k")
      case True
      then show ?thesis using c cs 0 by simp
    next
      case False
      then have "contrastize contrast avg = Inr c" using c by simp
      then have "average img r ((b # bs) ! j) = Inr (avg, r1) \<and>
          contrastize contrast avg = Inr (snd (cs ! j))" using av cs 0 by simp
      then have "\<exists>r0 r1 avg. average img r0 ((b # bs) ! j) = Inr (avg, r1) \<and>
          contrastize contrast avg = Inr (snd (cs ! j))" by blast
      moreover have "\<not> i + int j < k" using False 0 by simp
      ultimately show ?thesis by blast
    qed
  next
    case (Suc j')
    then have "j' < length bs" using j by simp
    with IH have
      "(i + 1 + int j' < k \<longrightarrow> snd (cs' ! j') = (255, 255, 255)) \<and>
        (\<not> i + 1 + int j' < k \<longrightarrow>
           (\<exists>r0 r1 avg. average img r0 (bs ! j') = Inr (avg, r1) \<and>
              contrastize contrast avg = Inr (snd (cs' ! j'))))" by blast
    moreover have "i + 1 + int j' = i + int j" using Suc by simp
    ultimately show ?thesis using cs Suc by simp
  qed
  then show ?case using m by blast
qed

lemma two_boxes_valid:
  "valid_partition (gray 6 1)
     [\<lparr>Top = 0, Bottom = 0, Left = 0, Right = 2\<rparr>, \<lparr>Top = 0, Bottom = 0, Left = 3, Right = 5\<rparr>]"
proof -
  have "{0..2} \<times> {0} \<union> {3..5} \<times> {0} = {0..5::int} \<times> {0::int}"
    "{0..2} \<times> {0} \<inter> {3..5} \<times> {0} = ({} :: (int \<times> int) set)" by auto
  then show ?thesis
    by (simp add: valid_partition_def bounds_within_def bbox_def canvas_def gray_sel
          pairwise_disjoint_Cons pairwise_disjoint_Nil)
qed


lemmas eval_defs2 = colorize_def colorize_colors.simps paint_boxes.simps paint.simps box_pixels_def
  contrastize_def roundize_def putpixel_def upto.simps gray_def

text \<open>
  \<^verbatim>\<open>colorize\<close> estimates the mean colour of every box, also of a box that it then paints white,
  so one box whose x-extent is 2 makes it raise before any pixel is painted.
\<close>

lemma colorize_two_wide_box_fails:
  assumes "Right b = Left b + 1" "fl (white * real_of_int (int (length (b # bs)))) = Some p"
  shows "colorize img r white contrast (b # bs) = Inl ZeroDivisionError"
proof -
  have "average img r b = Inl ZeroDivisionError" using assms(1) by (simp add: average_def sampler_def)
  then have "colorize_colors img r (py_int p) contrast 0 (b # bs) = Inl ZeroDivisionError"
    by simp
  then show ?thesis using assms(2) by (simp add: colorize_def Let_def)
qed

text \<open>
  When \<^verbatim>\<open>colorize\<close> returns on a valid partition with normalized boxes, with
  \<^verbatim>\<open>k = int(white * n)\<close> (the product rounded as a float), every pixel of each of the first
  \<^verbatim>\<open>k\<close> boxes in list order is pure white, whatever the image holds, and every pixel of each
  other box has the quantized colour \<^verbatim>\<open>contrastize\<close> of a mean that \<^verbatim>\<open>average\<close> estimated for
  that box on the input image.
\<close>

lemma colorize_prefix_when_it_returns:
  assumes "valid_partition img boxes" "\<forall>b \<in> set boxes. normalized b"
    "colorize img r white contrast boxes = Inr (img', r')"
  shows "\<exists>product. fl (white * real_of_int (int (length boxes))) = Some product \<and>
    (\<forall>i < length boxes. \<forall>p \<in> bbox (boxes ! i).
       (int i < py_int product \<longrightarrow> pix img' p = (255, 255, 255)) \<and>
       (py_int product \<le> int i \<longrightarrow>
          (\<exists>r0 r1 avg c. average img r0 (boxes ! i) = Inr (avg, r1) \<and>
             contrastize contrast avg = Inr c \<and> pix img' p = c)))"
proof -
  from assms(3) obtain product where
    fp: "fl (white * real_of_int (int (length boxes))) = Some product"
    unfolding colorize_def Let_def by (auto split: option.splits)
  let ?k = "py_int product"
  from assms(3) fp obtain cs where
    cc: "colorize_colors img r ?k contrast 0 boxes = Inr (cs, r')" and
    pb: "paint_boxes img cs = Inr img'"
    unfolding colorize_def Let_def by (auto split: sum.splits prod.splits)
  note sp = colorize_colors_spec[OF cc]
  have m: "map fst cs = boxes" using sp by simp
  have len: "length cs = length boxes" using m by (metis length_map)
  have fst_nth: "fst (cs ! i) = boxes ! i" if "i < length boxes" for i
    using m that len by (metis nth_map)
  have good: "\<forall>bc \<in> set cs. normalized (fst bc) \<and> 0 \<le> Left (fst bc) \<and> 0 \<le> Bottom (fst bc)"
  proof
    fix bc assume "bc \<in> set cs"
    then have "fst bc \<in> set boxes" using m by force
    then show "normalized (fst bc) \<and> 0 \<le> Left (fst bc) \<and> 0 \<le> Bottom (fst bc)"
      using assms(1,2) by (auto simp: valid_partition_def bounds_within_def)
  qed
  have pd: "pairwise_disjoint (map fst cs)" using assms(1) m by (simp add: valid_partition_def)
  from paint_boxes_effect[OF pb good] pd have
    eff: "\<forall>i < length cs. \<forall>p \<in> bbox (fst (cs ! i)). pix img' p = snd (cs ! i)" by blast
  have main: "(int i < ?k \<longrightarrow> pix img' p = (255, 255, 255)) \<and>
       (?k \<le> int i \<longrightarrow>
          (\<exists>r0 r1 avg c. average img r0 (boxes ! i) = Inr (avg, r1) \<and>
             contrastize contrast avg = Inr c \<and> pix img' p = c))"
    if i: "i < length boxes" and p: "p \<in> bbox (boxes ! i)" for i p
  proof -
    have px: "pix img' p = snd (cs ! i)" using eff i p len fst_nth[OF i] by auto
    from sp i have
      a: "0 + int i < ?k \<longrightarrow> snd (cs ! i) = (255, 255, 255)" and
      b: "\<not> 0 + int i < ?k \<longrightarrow>
           (\<exists>r0 r1 avg. average img r0 (boxes ! i) = Inr (avg, r1) \<and>
              contrastize contrast avg = Inr (snd (cs ! i)))" by blast+
    show ?thesis
    proof (cases "int i < ?k")
      case True
      then show ?thesis using a px by simp
    next
      case False
      then obtain r0 r1 avg where "average img r0 (boxes ! i) = Inr (avg, r1)"
        "contrastize contrast avg = Inr (snd (cs ! i))" using b by auto
      then have "\<exists>r0 r1 avg c. average img r0 (boxes ! i) = Inr (avg, r1) \<and>
             contrastize contrast avg = Inr c \<and> pix img' p = c" using px by blast
      then show ?thesis using False by blast
    qed
  qed
  show ?thesis using fp main by blast
qed

text \<open>The positional rule on a grey 6x1 image cut in two: the first box white, the second 128.\<close>

lemma colorize_prefix_example:
  "\<exists>img' r'. colorize (gray 6 1) zeros (1 / 2) 32
        [\<lparr>Top = 0, Bottom = 0, Left = 0, Right = 2\<rparr>, \<lparr>Top = 0, Bottom = 0, Left = 3, Right = 5\<rparr>]
        = Inr (img', r') \<and>
      pix img' (0, 0) = (255, 255, 255) \<and> pix img' (2, 0) = (255, 255, 255) \<and>
      pix img' (3, 0) = (128, 128, 128) \<and> pix img' (5, 0) = (128, 128, 128)"
  by (simp add: eval_defs eval_defs2 fl_eval)

text \<open>
  Claim C8 does not hold of the program. On a 2x1 image whose partition is the single canvas
  box, with \<^verbatim>\<open>white = 1\<close> the count is \<^verbatim>\<open>k = int(1 * 1) = 1\<close>, so the claim has the one region
  forced to pure white; \<^verbatim>\<open>colorize\<close> raises \<^verbatim>\<open>ZeroDivisionError\<close> instead, from the estimate of a
  mean that the whitened box never uses. The same happens on a 4x1 image cut into two boxes of
  x-extent 2 with \<^verbatim>\<open>white = 1/2\<close>.
\<close>

theorem colorize_fails_on_two_wide_region:
  "canvas_box (blank 2 1) = \<lparr>Top = 0, Bottom = 0, Left = 0, Right = 1\<rparr> \<and>
   bbox (canvas_box (blank 2 1)) = canvas (blank 2 1) \<and>
   fl (1 * real_of_int (int (length [canvas_box (blank 2 1)]))) = Some 1 \<and>
   py_int 1 = 1 \<and>
   colorize (blank 2 1) zeros 1 32 [canvas_box (blank 2 1)] = Inl ZeroDivisionError \<and>
   bbox \<lparr>Top = 0, Bottom = 0, Left = 0, Right = 1\<rparr> \<union> bbox \<lparr>Top = 0, Bottom = 0, Left = 2, Right = 3\<rparr>
      = canvas (blank 4 1) \<and>
   fl (1 / 2 * real_of_int (int (length
      [\<lparr>Top = 0, Bottom = 0, Left = 0, Right = 1\<rparr>, \<lparr>Top = 0, Bottom = 0, Left = 2, Right = 3\<rparr>]))) = Some 1 \<and>
   colorize (blank 4 1) zeros (1 / 2) 32
      [\<lparr>Top = 0, Bottom = 0, Left = 0, Right = 1\<rparr>, \<lparr>Top = 0, Bottom = 0, Left = 2, Right = 3\<rparr>]
      = Inl ZeroDivisionError"
proof -
  have a: "canvas_box (blank 2 1) = \<lparr>Top = 0, Bottom = 0, Left = 0, Right = 1\<rparr>"
    by (simp add: canvas_box_def blank_def)
  have b: "bbox (canvas_box (blank 2 1)) = canvas (blank 2 1)"
    by (simp add: canvas_box_def bbox_def canvas_def blank_def)
  have c: "fl (1 * real_of_int (int (length [canvas_box (blank 2 1)]))) = Some 1"
    by (simp add: fl_eval)
  have d: "py_int 1 = 1" by (simp add: py_int_def)
  have e: "colorize (blank 2 1) zeros 1 32 [canvas_box (blank 2 1)] = Inl ZeroDivisionError"
    unfolding a by (rule colorize_two_wide_box_fails) (simp_all add: fl_eval)
  have f: "bbox \<lparr>Top = 0, Bottom = 0, Left = 0, Right = 1\<rparr> \<union> bbox \<lparr>Top = 0, Bottom = 0, Left = 2, Right = 3\<rparr>
      = canvas (blank 4 1)"
    by (auto simp: bbox_def canvas_def blank_def)
  have g: "fl (1 / 2 * real_of_int (int (length
      [\<lparr>Top = 0, Bottom = 0, Left = 0, Right = 1\<rparr>, \<lparr>Top = 0, Bottom = 0, Left = 2, Right = 3\<rparr>]))) = Some 1"
    by (simp add: fl_eval)
  have h: "colorize (blank 4 1) zeros (1 / 2) 32
      [\<lparr>Top = 0, Bottom = 0, Left = 0, Right = 1\<rparr>, \<lparr>Top = 0, Bottom = 0, Left = 2, Right = 3\<rparr>]
      = Inl ZeroDivisionError"
    by (rule colorize_two_wide_box_fails) (simp_all add: fl_eval)
  show ?thesis using a b c d e f g h by blast
qed

section \<open>Determinism\<close>

lemma stream_from_0: "stream_from 0 r = r"
  by (simp add: stream_from_def)

lemma stream_from_add: "stream_from k2 (stream_from k1 r) = stream_from (k1 + k2) r"
  by (simp add: stream_from_def ac_simps)

lemma determinedI:
  assumes "\<And>r. \<exists>k. \<forall>r2. (\<forall>n < k. r2 n = r n) \<longrightarrow>
        (case f r of Inl e \<Rightarrow> f r2 = Inl e
         | Inr (x, r') \<Rightarrow> r' = stream_from k r \<and> f r2 = Inr (x, stream_from k r2))"
  shows "determined f"
  using assms unfolding determined_def by blast

lemma determinedD:
  assumes "determined f"
  obtains k where "\<And>r2. \<forall>n < k. r2 n = r n \<Longrightarrow>
        (case f r of Inl e \<Rightarrow> f r2 = Inl e
         | Inr (x, r') \<Rightarrow> r' = stream_from k r \<and> f r2 = Inr (x, stream_from k r2))"
  using assms unfolding determined_def by blast

lemma det_ret: "determined (\<lambda>r. Inr (x, r))"
proof (rule determinedI)
  fix r :: rng
  have "\<forall>r2. (\<forall>n < (0::nat). r2 n = r n) \<longrightarrow>
      (case Inr (x, r) of Inl (e::py_error) \<Rightarrow> Inr (x, r2) = Inl e
       | Inr (y, r') \<Rightarrow> r' = stream_from 0 r \<and> Inr (x, r2) = Inr (y, stream_from 0 r2))"
    by (simp add: stream_from_0)
  then show "\<exists>k. \<forall>r2. (\<forall>n < k. r2 n = r n) \<longrightarrow>
      (case Inr (x, r) of Inl (e::py_error) \<Rightarrow> Inr (x, r2) = Inl e
       | Inr (y, r') \<Rightarrow> r' = stream_from k r \<and> Inr (x, r2) = Inr (y, stream_from k r2))"
    by blast
qed

lemma det_err: "determined (\<lambda>r. Inl e)"
  by (rule determinedI) simp

lemma det_randint: "determined (\<lambda>r. randint r a b)"
proof (rule determinedI)
  fix r :: rng
  have "\<forall>r2. (\<forall>n < (1::nat). r2 n = r n) \<longrightarrow>
      (case randint r a b of Inl e \<Rightarrow> randint r2 a b = Inl e
       | Inr (x, r') \<Rightarrow> r' = stream_from 1 r \<and> randint r2 a b = Inr (x, stream_from 1 r2))"
    by (simp add: randint_def stream_from_def)
  then show "\<exists>k. \<forall>r2. (\<forall>n < k. r2 n = r n) \<longrightarrow>
      (case randint r a b of Inl e \<Rightarrow> randint r2 a b = Inl e
       | Inr (x, r') \<Rightarrow> r' = stream_from k r \<and> randint r2 a b = Inr (x, stream_from k r2))"
    by blast
qed

text \<open>
  Sequencing: when the first computation is determined by its draws and so is the second
  for every intermediate result, the two in sequence are: the draws add up.
\<close>

lemma det_bind:
  assumes f: "determined f" and g: "\<And>x. determined (g x)"
  shows "determined (\<lambda>r. case f r of Inl e \<Rightarrow> Inl e | Inr (x, r1) \<Rightarrow> g x r1)"
proof (rule determinedI)
  fix r :: rng
  let ?h = "\<lambda>r. case f r of Inl e \<Rightarrow> Inl e | Inr (x, r1) \<Rightarrow> g x r1"
  from determinedD[OF f, where r = r] obtain k1 where
    k1: "\<And>r2. \<forall>n < k1. r2 n = r n \<Longrightarrow>
        (case f r of Inl e \<Rightarrow> f r2 = Inl e
         | Inr (x, r') \<Rightarrow> r' = stream_from k1 r \<and> f r2 = Inr (x, stream_from k1 r2))"
    by blast
  show "\<exists>k. \<forall>r2. (\<forall>n < k. r2 n = r n) \<longrightarrow>
      (case ?h r of Inl e \<Rightarrow> ?h r2 = Inl e
       | Inr (x, r') \<Rightarrow> r' = stream_from k r \<and> ?h r2 = Inr (x, stream_from k r2))"
  proof (cases "f r")
    case (Inl e)
    have "\<forall>r2. (\<forall>n < k1. r2 n = r n) \<longrightarrow>
      (case ?h r of Inl e \<Rightarrow> ?h r2 = Inl e
       | Inr (x, r') \<Rightarrow> r' = stream_from k1 r \<and> ?h r2 = Inr (x, stream_from k1 r2))"
    proof (intro allI impI)
      fix r2 assume a: "\<forall>n < k1. r2 n = r n"
      from k1[OF a] Inl have "f r2 = Inl e" by simp
      then show "case ?h r of Inl e \<Rightarrow> ?h r2 = Inl e
       | Inr (x, r') \<Rightarrow> r' = stream_from k1 r \<and> ?h r2 = Inr (x, stream_from k1 r2)"
        using Inl by simp
    qed
    then show ?thesis by blast
  next
    case (Inr xr)
    obtain x r1 where xr: "xr = (x, r1)" by (cases xr)
    have fr: "f r = Inr (x, r1)" using Inr xr by simp
    have r1: "r1 = stream_from k1 r" using k1[of r] fr by simp
    from determinedD[OF g[of x], where r = r1] obtain k2 where
      k2: "\<And>r2. \<forall>n < k2. r2 n = r1 n \<Longrightarrow>
        (case g x r1 of Inl e \<Rightarrow> g x r2 = Inl e
         | Inr (y, r') \<Rightarrow> r' = stream_from k2 r1 \<and> g x r2 = Inr (y, stream_from k2 r2))"
      by blast
    have hr: "?h r = g x r1" using fr by simp
    have "\<forall>r2. (\<forall>n < k1 + k2. r2 n = r n) \<longrightarrow>
      (case ?h r of Inl e \<Rightarrow> ?h r2 = Inl e
       | Inr (y, r') \<Rightarrow> r' = stream_from (k1 + k2) r \<and> ?h r2 = Inr (y, stream_from (k1 + k2) r2))"
    proof (intro allI impI)
      fix r2 assume a: "\<forall>n < k1 + k2. r2 n = r n"
      then have "\<forall>n < k1. r2 n = r n" by simp
      from k1[OF this] fr have f2: "f r2 = Inr (x, stream_from k1 r2)" by simp
      have h2: "?h r2 = g x (stream_from k1 r2)" using f2 by simp
      have "\<forall>n < k2. stream_from k1 r2 n = r1 n" using a r1 by (simp add: stream_from_def)
      note c = k2[OF this]
      show "case ?h r of Inl e \<Rightarrow> ?h r2 = Inl e
       | Inr (y, r') \<Rightarrow> r' = stream_from (k1 + k2) r \<and> ?h r2 = Inr (y, stream_from (k1 + k2) r2)"
        unfolding hr h2 using c r1
        by (auto split: sum.splits simp: stream_from_add)
    qed
    then show ?thesis by blast
  qed
qed

lemma det_pure:
  assumes "\<And>y. determined (h y)"
  shows "determined (\<lambda>r. case v of Inl e \<Rightarrow> Inl e | Inr y \<Rightarrow> h y r)"
  using assms by (cases v) (simp_all add: det_err)

lemma det_if:
  assumes "determined f" "determined g"
  shows "determined (\<lambda>r. if c then f r else g r)"
  using assms by (cases c) simp_all

lemma det_option:
  assumes "determined f" "\<And>y. determined (g y)"
  shows "determined (\<lambda>r. case v of None \<Rightarrow> f r | Some y \<Rightarrow> g y r)"
  using assms by (cases v) simp_all

lemma det_list:
  assumes "determined f" "\<And>y ys. determined (g y ys)"
  shows "determined (\<lambda>r. case v of [] \<Rightarrow> f r | y # ys \<Rightarrow> g y ys r)"
  using assms by (cases v) simp_all

text \<open>Every function of the program that draws from the random source is determined by its draws.\<close>

lemma det_draw_samples: "determined (\<lambda>r. draw_samples img r minx maxx miny maxy k)"
proof (induction k)
  case 0
  show ?case by (simp add: det_ret)
next
  case (Suc k)
  show ?case unfolding draw_samples.simps
    by (intro det_bind det_pure det_randint det_ret Suc.IH)
qed

lemma det_average: "determined (\<lambda>r. average img r box)"
  unfolding average_def Let_def
  by (intro det_bind det_if det_err det_ret det_draw_samples)

lemma det_vertical_cuts: "determined (\<lambda>r. vertical_cuts r lo hi box k)"
proof (induction k)
  case 0
  show ?case by (simp add: det_ret)
next
  case (Suc k)
  show ?case unfolding vertical_cuts.simps
    by (intro det_bind det_randint det_ret Suc.IH)
qed

lemma det_horizontal_cuts: "determined (\<lambda>r. horizontal_cuts r lo hi box k)"
proof (induction k)
  case 0
  show ?case by (simp add: det_ret)
next
  case (Suc k)
  show ?case unfolding horizontal_cuts.simps
    by (intro det_bind det_randint det_ret Suc.IH)
qed

lemma det_pair_key: "determined (\<lambda>r. pair_key img r pair)"
  unfolding pair_key_def
  by (intro det_bind det_ret det_average)

lemma det_max_key: "determined (\<lambda>r. max_key img r best bestval ps)"
proof (induction ps arbitrary: best bestval)
  case Nil
  show ?case by (simp add: det_ret)
next
  case (Cons p ps)
  show ?case unfolding max_key.simps
    by (intro det_bind det_if det_pair_key Cons.IH)
qed

lemma det_split: "determined (\<lambda>r. split img r cuts margin box)"
  unfolding split_def Let_def
  by (intro det_bind det_if det_list det_ret det_vertical_cuts det_horizontal_cuts
        det_pair_key det_max_key)

lemma det_spawn_loop: "determined (\<lambda>r. spawn_loop img r cuts margin boxIndex i bs)"
proof (induction bs arbitrary: i)
  case Nil
  show ?case by (simp add: det_ret)
next
  case (Cons b bs)
  show ?case unfolding spawn_loop.simps
    by (intro det_bind det_if det_ret det_split Cons.IH)
qed

lemma det_spawn: "determined (\<lambda>r. spawn img r cuts margin boxes)"
  unfolding spawn_def Let_def
  by (intro det_bind det_randint det_spawn_loop)

lemma det_fragment: "determined (\<lambda>r. fragment img r cuts margin depth boxes gen)"
proof (induction "nat (depth - gen)" arbitrary: boxes gen)
  case 0
  then have "depth \<le> gen" by simp
  then have "(\<lambda>r. fragment img r cuts margin depth boxes gen) = (\<lambda>r. Inr (boxes, r))"
    by (simp add: fragment.simps)
  then show ?case by (simp add: det_ret)
next
  case (Suc n)
  then have lt: "\<not> depth \<le> gen" and m: "n = nat (depth - (gen + 1))" by auto
  have e: "(\<lambda>r. fragment img r cuts margin depth boxes gen) =
      (\<lambda>r. case spawn img r cuts margin boxes of Inl e \<Rightarrow> Inl e
            | Inr (more_boxes, r1) \<Rightarrow> fragment img r1 cuts margin depth more_boxes (gen + 1))"
    using lt by (subst fragment.simps) simp
  show ?case unfolding e
    by (intro det_bind det_spawn Suc.hyps(1)[OF m])
qed

lemma det_boxize: "determined (\<lambda>r. boxize img r cuts margin depth)"
  unfolding boxize_def by (rule det_fragment)

lemma det_colorize_colors: "determined (\<lambda>r. colorize_colors img r whitened contrast i boxes)"
proof (induction boxes arbitrary: i)
  case Nil
  show ?case by (simp add: det_ret)
next
  case (Cons b bs)
  show ?case unfolding colorize_colors.simps
    by (intro det_bind det_pure det_ret det_average Cons.IH)
qed

lemma det_colorize: "determined (\<lambda>r. colorize img r white contrast boxes)"
  unfolding colorize_def Let_def
  by (intro det_option det_bind det_pure det_ret det_err det_colorize_colors)

lemma det_full_run: "determined (\<lambda>r. full_run img r cuts edges depth white contrast margin)"
  unfolding full_run_def
  by (intro det_bind det_pure det_ret det_boxize det_colorize)

text \<open>
  Claim C6. The partition builder, the recolorer, the three passes in sequence and the
  pipeline of \<^verbatim>\<open>main\<close> take their random values from the given random source only, one after
  the other: for every image, every configuration and every state of the source, a run reads
  a finite number \<open>k\<close> of values, and every run on the same image and configuration whose
  source produces the same first \<open>k\<close> values returns the same boxes and the same image, pixel
  for pixel (or raises the same error), and leaves its source \<open>k\<close> draws further. Two sources in
  the same seeded state produce the same values, so two such runs give identical outputs and
  the same final partition.
\<close>

theorem pipeline_deterministic:
  "determined (\<lambda>r. boxize img r cuts edges depth) \<and>
   determined (\<lambda>r. colorize img r white contrast boxes) \<and>
   determined (\<lambda>r. full_run img r cuts edges depth white contrast margin) \<and>
   determined (\<lambda>r. pipeline img r cuts depth white contrast)"
proof -
  have "determined (\<lambda>r. pipeline img r cuts depth white contrast)"
    unfolding pipeline_def Let_def by (rule det_full_run)
  then show ?thesis using det_boxize det_colorize det_full_run by blast
qed

text \<open>
  A run with a split and with borders: a grey 6 by 1 image, one cut per axis, one generation,
  edges 2, margin 1, half of the boxes white. The source \<open>0, 3, 6, ...\<close> cuts the canvas into
  the columns 0 to 2 and 3 to 5, and the run reads 10 values; the source that produces the
  same 10 values and then 0 for ever gives the same boxes and the same image. The partition
  builder alone reads 6 values.
\<close>

theorem pipeline_deterministic_witness:
  "\<exists>img'.
     full_run (gray 6 1) triples 1 2 1 (1 / 2) 32 1 =
       Inr (([\<lparr>Top = 0, Bottom = 0, Left = 0, Right = 2\<rparr>, \<lparr>Top = 0, Bottom = 0, Left = 3, Right = 5\<rparr>],
             img'), stream_from 10 triples) \<and>
     full_run (gray 6 1) (stream_of [0, 3, 6, 9, 12, 15, 18, 21, 24, 27]) 1 2 1 (1 / 2) 32 1 =
       Inr (([\<lparr>Top = 0, Bottom = 0, Left = 0, Right = 2\<rparr>, \<lparr>Top = 0, Bottom = 0, Left = 3, Right = 5\<rparr>],
             img'), stream_from 10 (stream_of [0, 3, 6, 9, 12, 15, 18, 21, 24, 27])) \<and>
     stream_of [0, 3, 6, 9, 12, 15, 18, 21, 24, 27] 10 \<noteq> triples 10 \<and>
     pix img' (0, 0) = (255, 255, 255) \<and> pix img' (1, 0) = (0, 0, 0) \<and>
     pix img' (2, 0) = (0, 0, 0) \<and> pix img' (3, 0) = (0, 0, 0) \<and>
     pix img' (4, 0) = (0, 0, 0) \<and> pix img' (5, 0) = (128, 128, 128) \<and>
     boxize (gray 6 1) triples 1 2 1 =
       Inr ([\<lparr>Top = 0, Bottom = 0, Left = 0, Right = 2\<rparr>, \<lparr>Top = 0, Bottom = 0, Left = 3, Right = 5\<rparr>],
            stream_from 6 triples) \<and>
     boxize (gray 6 1) (stream_of [0, 3, 6, 9, 12, 15]) 1 2 1 =
       Inr ([\<lparr>Top = 0, Bottom = 0, Left = 0, Right = 2\<rparr>, \<lparr>Top = 0, Bottom = 0, Left = 3, Right = 5\<rparr>],
            stream_from 6 (stream_of [0, 3, 6, 9, 12, 15])) \<and>
     stream_of [0, 3, 6, 9, 12, 15] 6 \<noteq> triples 6"
proof -
  let ?a = "\<lparr>Top = 0, Bottom = 0, Left = 0, Right = 2\<rparr>"
  let ?b = "\<lparr>Top = 0, Bottom = 0, Left = 3, Right = 5\<rparr>"
  let ?s = "stream_of [0, 3, 6, 9, 12, 15, 18, 21, 24, 27]"
  let ?t = "stream_of [0, 3, 6, 9, 12, 15]"
  let ?f = "\<lambda>r. full_run (gray 6 1) r 1 2 1 (1 / 2) 32 1"
  let ?g = "\<lambda>r. boxize (gray 6 1) r 1 2 1"
  note t = pipeline_deterministic[of "gray 6 1" 1 2 1 "1 / 2" 32 "[]" 1]
  have bz: "\<exists>R. boxize (gray 6 1) triples 1 2 1 = Inr ([?a, ?b], R) \<and> R 0 = 18"
    by (simp add: eval_defs gray_def triples_def)
  then obtain R1 where b1: "?g triples = Inr ([?a, ?b], R1)" and b0: "R1 0 = 18" by blast
  from t have dg: "determined ?g" by blast
  from determinedD[OF dg, where r = triples] obtain k where
    k: "\<And>r2. \<forall>n < k. r2 n = triples n \<Longrightarrow>
        (case ?g triples of Inl e \<Rightarrow> ?g r2 = Inl e
         | Inr (x, r') \<Rightarrow> r' = stream_from k triples \<and> ?g r2 = Inr (x, stream_from k r2))"
    by blast
  have "R1 = stream_from k triples" using k[of triples] b1 by simp
  then have "18 = 3 * k" using b0 by (simp add: stream_from_def triples_def)
  then have k6: "k = 6" by simp
  have r1: "R1 = stream_from 6 triples" using k[of triples] b1 k6 by simp
  have "\<forall>n < 6. ?t n = triples n"
    by (auto simp: stream_of_def triples_def less_Suc_eq eval_nat_numeral)
  then have b2: "?g ?t = Inr ([?a, ?b], stream_from 6 ?t)" using k[of ?t] b1 k6 by simp
  have "\<exists>R img'. colorize (gray 6 1) (stream_from 6 triples) (1 / 2) 32 [?a, ?b] = Inr (img', R) \<and> R 0 = 30 \<and>
      borderize img' 1 [?a, ?b] = Inr (img'\<lparr>pix := (pix img')((2, 0) := (0, 0, 0), (1, 0) := (0, 0, 0),
           (3, 0) := (0, 0, 0), (4, 0) := (0, 0, 0))\<rparr>) \<and>
      pix img' (0, 0) = (255, 255, 255) \<and> pix img' (5, 0) = (128, 128, 128)"
    by (simp add: eval_defs eval_defs2 fl_eval borderize_def borders_def stream_from_def triples_def)
  then obtain R img0 where
    c1: "colorize (gray 6 1) (stream_from 6 triples) (1 / 2) 32 [?a, ?b] = Inr (img0, R)" and c0: "R 0 = 30" and
    d1: "borderize img0 1 [?a, ?b] = Inr (img0\<lparr>pix := (pix img0)((2, 0) := (0, 0, 0), (1, 0) := (0, 0, 0),
           (3, 0) := (0, 0, 0), (4, 0) := (0, 0, 0))\<rparr>)" and
    p0: "pix img0 (0, 0) = (255, 255, 255)" "pix img0 (5, 0) = (128, 128, 128)" by blast
  define img' where "img' = img0\<lparr>pix := (pix img0)((2, 0) := (0, 0, 0), (1, 0) := (0, 0, 0),
           (3, 0) := (0, 0, 0), (4, 0) := (0, 0, 0))\<rparr>"
  have f1: "?f triples = Inr (([?a, ?b], img'), R)"
    using b1 c1 d1 r1 by (simp add: full_run_def img'_def)
  have px: "pix img' (0, 0) = (255, 255, 255) \<and> pix img' (1, 0) = (0, 0, 0) \<and>
     pix img' (2, 0) = (0, 0, 0) \<and> pix img' (3, 0) = (0, 0, 0) \<and>
     pix img' (4, 0) = (0, 0, 0) \<and> pix img' (5, 0) = (128, 128, 128)"
    using p0 by (simp add: img'_def)
  from t have df: "determined ?f" by blast
  from determinedD[OF df, where r = triples] obtain j where
    j: "\<And>r2. \<forall>n < j. r2 n = triples n \<Longrightarrow>
        (case ?f triples of Inl e \<Rightarrow> ?f r2 = Inl e
         | Inr (x, r') \<Rightarrow> r' = stream_from j triples \<and> ?f r2 = Inr (x, stream_from j r2))"
    by blast
  have "R = stream_from j triples" using j[of triples] f1 by simp
  then have "30 = 3 * j" using c0 by (simp add: stream_from_def triples_def)
  then have j10: "j = 10" by simp
  have f1': "?f triples = Inr (([?a, ?b], img'), stream_from 10 triples)"
    using j[of triples] f1 j10 by simp
  have "\<forall>n < 10. ?s n = triples n"
    by (auto simp: stream_of_def triples_def less_Suc_eq eval_nat_numeral)
  then have f2: "?f ?s = Inr (([?a, ?b], img'), stream_from 10 ?s)" using j[of ?s] f1 j10 by simp
  have ne: "?s 10 \<noteq> triples 10" "?t 6 \<noteq> triples 6" by (simp_all add: stream_of_def triples_def)
  show ?thesis using f1' f2 ne px b1 r1 b2 by blast
qed

end
